theory Spec2Isabelle
  imports Main "HOL-Library.Word"
begin

section \<open>Data model of server.js\<close>

text \<open>
  The module-level variables of server.js (\<^verbatim>\<open>cameras\<close>, \<^verbatim>\<open>currentModels\<close>,
  \<^verbatim>\<open>currentModelIndex\<close>, \<^verbatim>\<open>predictions\<close>, \<^verbatim>\<open>systemErrors\<close>, \<^verbatim>\<open>imageBase\<close>) form one
  record that every operation takes and returns. Strings are byte strings, a
  \<^verbatim>\<open>Buffer\<close> is a list of bytes. A timestamp is the clock reading in milliseconds
  that \<^verbatim>\<open>new Date().toISOString()\<close> renders and \<^verbatim>\<open>new Date(s)\<close> reads back.
\<close>

type_synonym buffer = "8 word list"

datatype json =
    JNull
  | JBool bool
  | JNum int
  | JStr string
  | JArr "json list"
  | JObj "(string \<times> json) list"

text \<open>The string \<^verbatim>\<open>data:image/jpeg;base64,\<close> followed by the base64 text of the buffer.\<close>

datatype image = JpegDataUrl buffer

record camera =
  cam_id :: nat
  cam_name :: "string option"
  device :: "string option"
  streamPort :: nat
  streamUrl :: string

record prediction =
  p_cameraId :: nat
  p_model :: "string option"
  p_timestamp :: int
  p_result :: json
  p_image :: image

record error_entry =
  e_cameraId :: nat
  e_error :: string
  e_timestamp :: int

record server_state =
  cameras :: "camera list"
  currentModels :: "string list"
  currentModelIndex :: nat
  predictions :: "prediction list"
  systemErrors :: "error_entry list"
  imageBase :: "image option"

definition initial_state :: server_state where
  "initial_state =
     \<lparr> cameras = [],
       currentModels = [''lettuce-diseases'', ''malabar-spinach-training''],
       currentModelIndex = 0,
       predictions = [],
       systemErrors = [],
       imageBase = None \<rparr>"


section \<open>History buffers\<close>

text \<open>
  \<^verbatim>\<open>addSystemError\<close>: \<^verbatim>\<open>unshift\<close> the entry, then \<^verbatim>\<open>slice(0, 50)\<close> when the length
  exceeds 50. \<open>now\<close> is the clock reading of \<^verbatim>\<open>new Date()\<close>.
\<close>

definition addSystemError :: "nat \<Rightarrow> string \<Rightarrow> int \<Rightarrow> server_state \<Rightarrow> server_state" where
  "addSystemError cameraId err now s =
     (let errorEntry = \<lparr> e_cameraId = cameraId, e_error = err, e_timestamp = now \<rparr>;
          unshifted = errorEntry # systemErrors s
      in s\<lparr> systemErrors := (if length unshifted > 50 then take 50 unshifted else unshifted) \<rparr>)"

text \<open>
  The \<^verbatim>\<open>then\<close> callback of \<^verbatim>\<open>predictionLoop\<close>: the non-null results of one cycle are
  unshifted as a block (in camera order), then the list is cut to 100.
\<close>

definition commit_predictions :: "prediction option list \<Rightarrow> server_state \<Rightarrow> server_state" where
  "commit_predictions p s =
     (let unshifted = map the (filter (\<lambda>pred. pred \<noteq> None) p) @ predictions s
      in s\<lparr> predictions := (if length unshifted > 100 then take 100 unshifted else unshifted) \<rparr>)"


section \<open>Strings of JavaScript\<close>

text \<open>Template literals render a number in decimal and \<^verbatim>\<open>null\<close> as the word null.\<close>

definition digit_char :: "nat \<Rightarrow> char" where
  "digit_char d = ''0123456789'' ! d"

function show_nat :: "nat \<Rightarrow> string" where
  "show_nat n = (if n < 10 then [digit_char n] else show_nat (n div 10) @ [digit_char (n mod 10)])"
  by pat_completeness auto
termination
  by (relation "measure (\<lambda>n. n)") auto

declare show_nat.simps [simp del]

definition show_code :: "int option \<Rightarrow> string" where
  "show_code code =
     (case code of
        None \<Rightarrow> ''null''
      | Some i \<Rightarrow> (if i < 0 then ''-'' @ show_nat (nat (- i)) else show_nat (nat i)))"

text \<open>
  A string is the UTF-8 text of the JavaScript string (\<^verbatim>\<open>data.toString()\<close> decodes
  UTF-8); on such text \<^verbatim>\<open>startsWith\<close>, \<^verbatim>\<open>endsWith\<close>, \<^verbatim>\<open>includes\<close>, \<^verbatim>\<open>split\<close> and
  \<^verbatim>\<open>replace\<close> with ASCII patterns work on the bytes as they do on the characters.
\<close>

fun startsWith :: "string \<Rightarrow> string \<Rightarrow> bool" where
  "startsWith s [] = True"
| "startsWith [] (p # ps) = False"
| "startsWith (c # cs) (p # ps) = (c = p \<and> startsWith cs ps)"

text \<open>
  The code points that \<^verbatim>\<open>String.prototype.trim\<close> strips, in UTF-8: WhiteSpace (tab,
  vertical tab, form feed, space, U+00A0, U+FEFF and the other space separators
  U+1680, U+2000 to U+200A, U+202F, U+205F, U+3000) and LineTerminator (line
  feed, carriage return, U+2028, U+2029).
\<close>

definition white_space :: "string list" where
  "white_space =
     [[CHR 0x09], [CHR 0x0A], [CHR 0x0B], [CHR 0x0C], [CHR 0x0D], [CHR 0x20],
      [CHR 0xC2, CHR 0xA0],
      [CHR 0xE1, CHR 0x9A, CHR 0x80],
      [CHR 0xE2, CHR 0x80, CHR 0x80], [CHR 0xE2, CHR 0x80, CHR 0x81],
      [CHR 0xE2, CHR 0x80, CHR 0x82], [CHR 0xE2, CHR 0x80, CHR 0x83],
      [CHR 0xE2, CHR 0x80, CHR 0x84], [CHR 0xE2, CHR 0x80, CHR 0x85],
      [CHR 0xE2, CHR 0x80, CHR 0x86], [CHR 0xE2, CHR 0x80, CHR 0x87],
      [CHR 0xE2, CHR 0x80, CHR 0x88], [CHR 0xE2, CHR 0x80, CHR 0x89],
      [CHR 0xE2, CHR 0x80, CHR 0x8A],
      [CHR 0xE2, CHR 0x80, CHR 0xA8], [CHR 0xE2, CHR 0x80, CHR 0xA9],
      [CHR 0xE2, CHR 0x80, CHR 0xAF],
      [CHR 0xE2, CHR 0x81, CHR 0x9F],
      [CHR 0xE3, CHR 0x80, CHR 0x80],
      [CHR 0xEF, CHR 0xBB, CHR 0xBF]]"

text \<open>The length of the token of \<open>toks\<close> that \<open>s\<close> starts with, 0 when there is none.\<close>

definition leading :: "string list \<Rightarrow> string \<Rightarrow> nat" where
  "leading toks s = (case find (startsWith s) toks of None \<Rightarrow> 0 | Some w \<Rightarrow> length w)"

function strip_leading :: "string list \<Rightarrow> string \<Rightarrow> string" where
  "strip_leading toks s =
     (if leading toks s = 0 then s else strip_leading toks (drop (leading toks s) s))"
  by pat_completeness auto
termination
proof (relation "measure (\<lambda>(toks, s). length s)")
  show "wf (measure (\<lambda>(toks, s). length s))" by simp
next
  fix toks :: "string list" and s :: string
  assume pos: "leading toks s \<noteq> 0"
  have sw: "\<And>w. startsWith s w \<Longrightarrow> w \<noteq> [] \<Longrightarrow> s \<noteq> []"
    by (case_tac s; case_tac w) simp_all
  obtain w where f: "find (startsWith s) toks = Some w" and len: "length w \<noteq> 0"
    using pos by (cases "find (startsWith s) toks") (simp_all add: leading_def)
  have "startsWith s w" using f by (auto simp: find_Some_iff)
  then have "s \<noteq> []" using sw len by simp
  then show "((toks, drop (leading toks s) s), (toks, s)) \<in> measure (\<lambda>(toks, s). length s)"
    using pos by (cases s) simp_all
qed

declare strip_leading.simps [simp del]

definition js_trim :: "string \<Rightarrow> string" where
  "js_trim s = rev (strip_leading (map rev white_space) (rev (strip_leading white_space s)))"

definition endsWith :: "string \<Rightarrow> string \<Rightarrow> bool" where
  "endsWith s p = startsWith (rev s) (rev p)"

fun js_includes :: "string \<Rightarrow> string \<Rightarrow> bool" where
  "js_includes [] p = (p = [])"
| "js_includes (c # cs) p = (startsWith (c # cs) p \<or> js_includes cs p)"

text \<open>\<^verbatim>\<open>s.split(sep)\<close> for a one-character separator: never empty, \<^verbatim>\<open>''.split()\<close> is \<^verbatim>\<open>['']\<close>.\<close>

fun split_on :: "char \<Rightarrow> string \<Rightarrow> string list" where
  "split_on sep [] = [[]]"
| "split_on sep (c # cs) =
     (if c = sep then [] # split_on sep cs
      else (case split_on sep cs of
              [] \<Rightarrow> [[c]]
            | l # ls \<Rightarrow> (c # l) # ls))"

text \<open>\<^verbatim>\<open>s.replace(c, '')\<close> with a string pattern: only the first occurrence goes.\<close>

fun remove_first :: "char \<Rightarrow> string \<Rightarrow> string" where
  "remove_first x [] = []"
| "remove_first x (c # cs) = (if c = x then cs else c # remove_first x cs)"

text \<open>\<^verbatim>\<open>xs[i]\<close>: \<^verbatim>\<open>undefined\<close> (here \<open>None\<close>) out of range.\<close>

definition js_index :: "'a list \<Rightarrow> nat \<Rightarrow> 'a option" where
  "js_index xs i = (if i < length xs then Some (xs ! i) else None)"


section \<open>captureFrame\<close>

text \<open>
  \<^verbatim>\<open>captureFrame\<close> spawns ffmpeg on the camera's stream and returns a promise that
  its callbacks settle. The callbacks are the model: one event is one callback
  that the event loop runs, with the clock reading of that turn.
  The promise settles once: a later \<^verbatim>\<open>resolve\<close> or \<^verbatim>\<open>reject\<close> does nothing.
  \<^verbatim>\<open>STORE_IMAGES_TO_TMP\<close> is the constant \<^verbatim>\<open>false\<close>, so no file is written.
\<close>

datatype proc_event =
    StdoutData buffer
  | StderrData string
  | ProcClose "int option"
  | ProcError string

datatype capture_event = Proc proc_event | TimerFired

datatype settlement = Resolved buffer | Rejected string

record capture_state =
  imageBuffer :: buffer
  hasData :: bool
  stderrOutput :: string
  settled :: "settlement option"
  killed :: bool

definition capture_start :: capture_state where
  "capture_start =
     \<lparr> imageBuffer = [], hasData = False, stderrOutput = [], settled = None, killed = False \<rparr>"

definition capture_stream_url :: "camera \<Rightarrow> string" where
  "capture_stream_url cam = ''http://localhost:'' @ show_nat (streamPort cam) @ ''/stream''"

text \<open>The delay handed to \<^verbatim>\<open>setTimeout\<close>, in milliseconds.\<close>

definition capture_timeout_ms :: int where
  "capture_timeout_ms = 10000"

definition settle :: "settlement \<Rightarrow> capture_state \<Rightarrow> capture_state" where
  "settle r c = (if settled c = None then c\<lparr> settled := Some r \<rparr> else c)"

definition capture_failed_msg :: "camera \<Rightarrow> int option \<Rightarrow> string \<Rightarrow> string" where
  "capture_failed_msg cam code err =
     ''Failed to capture frame from MJPEG stream for camera '' @ show_nat (cam_id cam)
       @ ''. Exit code: '' @ show_code code @ ''. Stderr: '' @ js_trim err"

definition ffmpeg_error_msg :: "camera \<Rightarrow> string \<Rightarrow> string" where
  "ffmpeg_error_msg cam msg = ''FFmpeg error for camera '' @ show_nat (cam_id cam) @ '': '' @ msg"

definition capture_timeout_msg :: "camera \<Rightarrow> string" where
  "capture_timeout_msg cam = ''Timeout capturing frame from camera '' @ show_nat (cam_id cam)"

fun capture_handler ::
  "camera \<Rightarrow> int \<Rightarrow> capture_event \<Rightarrow> capture_state \<times> server_state
     \<Rightarrow> capture_state \<times> server_state" where
  "capture_handler cam now (Proc (StdoutData d)) (c, s) =
     (c\<lparr> imageBuffer := imageBuffer c @ d, hasData := True \<rparr>, s)"
| "capture_handler cam now (Proc (StderrData d)) (c, s) =
     (c\<lparr> stderrOutput := stderrOutput c @ d \<rparr>, s)"
| "capture_handler cam now (Proc (ProcClose code)) (c, s) =
     (if code = Some 0 \<and> hasData c \<and> length (imageBuffer c) > 0
      then (settle (Resolved (imageBuffer c)) c, s)
      else (let errorMsg = capture_failed_msg cam code (stderrOutput c)
            in (settle (Rejected errorMsg) c, addSystemError (cam_id cam) errorMsg now s)))"
| "capture_handler cam now (Proc (ProcError msg)) (c, s) =
     (let errorMsg = ffmpeg_error_msg cam msg
      in (settle (Rejected errorMsg) c, addSystemError (cam_id cam) errorMsg now s))"
| "capture_handler cam now TimerFired (c, s) =
     (if \<not> hasData c
      then (let errorMsg = capture_timeout_msg cam
            in (settle (Rejected errorMsg) (c\<lparr> killed := True \<rparr>),
                addSystemError (cam_id cam) errorMsg now s))
      else (c, s))"

text \<open>The callbacks of one capture, in the order the event loop runs them.\<close>

fun run_capture ::
  "camera \<Rightarrow> (int \<times> capture_event) list \<Rightarrow> capture_state \<times> server_state
     \<Rightarrow> capture_state \<times> server_state" where
  "run_capture cam [] cs = cs"
| "run_capture cam ((now, ev) # evs) cs = run_capture cam evs (capture_handler cam now ev cs)"


text \<open>
  \<^verbatim>\<open>setTimeout(..., 10000)\<close>: the timer callback runs once, \<open>lag\<close> milliseconds after it
  is due (the event loop is never early), after the process events handled before
  that moment and before the later ones. \<open>start\<close> is the clock reading at the call.
\<close>

fun schedule :: "int \<Rightarrow> (int \<times> proc_event) list \<Rightarrow> (int \<times> capture_event) list" where
  "schedule fire [] = [(fire, TimerFired)]"
| "schedule fire ((t, ev) # evs) =
     (if t < fire then (t, Proc ev) # schedule fire evs
      else (fire, TimerFired) # map (\<lambda>(t', ev'). (t', Proc ev')) ((t, ev) # evs))"

definition captureFrame ::
  "camera \<Rightarrow> int \<Rightarrow> nat \<Rightarrow> (int \<times> proc_event) list \<Rightarrow> server_state
     \<Rightarrow> capture_state \<times> server_state" where
  "captureFrame cam start lag pevs s =
     run_capture cam (schedule (start + capture_timeout_ms + int lag) pevs) (capture_start, s)"

text \<open>The process events whose callbacks run before the moment \<open>d\<close>.\<close>

definition handled_before :: "int \<Rightarrow> (int \<times> proc_event) list \<Rightarrow> proc_event list" where
  "handled_before d pevs = map snd (takeWhile (\<lambda>(t, ev). t < d) pevs)"

definition lift_proc :: "int \<times> proc_event \<Rightarrow> int \<times> capture_event" where
  "lift_proc e = (fst e, Proc (snd e))"

text \<open>The bytes and the diagnostics that the callbacks of a trace have received.\<close>

fun stdout_bytes :: "(int \<times> capture_event) list \<Rightarrow> buffer" where
  "stdout_bytes [] = []"
| "stdout_bytes ((t, Proc (StdoutData d)) # evs) = d @ stdout_bytes evs"
| "stdout_bytes (e # evs) = stdout_bytes evs"

fun stderr_text :: "(int \<times> capture_event) list \<Rightarrow> string" where
  "stderr_text [] = []"
| "stderr_text ((t, Proc (StderrData d)) # evs) = d @ stderr_text evs"
| "stderr_text (e # evs) = stderr_text evs"

fun is_stdout :: "proc_event \<Rightarrow> bool" where
  "is_stdout (StdoutData d) = True"
| "is_stdout e = False"

fun is_stderr :: "proc_event \<Rightarrow> bool" where
  "is_stderr (StderrData d) = True"
| "is_stderr e = False"


section \<open>sendPrediction\<close>

text \<open>
  What \<^verbatim>\<open>fetch\<close> gives: a rejection (transport failure), or a response with its
  \<^verbatim>\<open>ok\<close> flag, its status and its body as \<^verbatim>\<open>response.json()\<close> parses it (\<open>None\<close> when
  the body is not JSON and the parse rejects).
\<close>

datatype fetch_outcome =
    FetchRejected string
  | FetchResponse bool nat "json option"

datatype js_exn =
    FetchError string
  | HttpError nat
  | JsonParseError
  | TypeErrorNull
  | PredictionError json

text \<open>\<^verbatim>\<open>result['error']\<close>: throws on \<^verbatim>\<open>null\<close>, \<^verbatim>\<open>undefined\<close> where there is no such property.\<close>

fun get_error :: "json \<Rightarrow> js_exn + json option" where
  "get_error JNull = Inl TypeErrorNull"
| "get_error (JObj kvs) = Inr (map_of kvs ''error'')"
| "get_error v = Inr None"

fun truthy :: "json option \<Rightarrow> bool" where
  "truthy None = False"
| "truthy (Some JNull) = False"
| "truthy (Some (JBool b)) = b"
| "truthy (Some (JNum n)) = (n \<noteq> 0)"
| "truthy (Some (JStr s)) = (s \<noteq> [])"
| "truthy (Some (JArr xs)) = True"
| "truthy (Some (JObj kvs)) = True"

text \<open>The body of the \<^verbatim>\<open>try\<close> block: \<open>Inl\<close> is a throw.\<close>

definition sendPrediction_try ::
  "camera \<Rightarrow> buffer \<Rightarrow> string option \<Rightarrow> int \<Rightarrow> fetch_outcome \<Rightarrow> server_state
     \<Rightarrow> js_exn + prediction \<times> server_state" where
  "sendPrediction_try cam imageBuffer' model now outcome s =
     (case outcome of
        FetchRejected msg \<Rightarrow> Inl (FetchError msg)
      | FetchResponse ok status body \<Rightarrow>
          if \<not> ok then Inl (HttpError status)
          else (case body of
                  None \<Rightarrow> Inl JsonParseError
                | Some result \<Rightarrow>
                    (case get_error result of
                       Inl e \<Rightarrow> Inl e
                     | Inr err \<Rightarrow>
                         if truthy err then Inl (PredictionError (the err))
                         else (let imageBase64 = JpegDataUrl imageBuffer';
                                   s' = s\<lparr> imageBase := Some imageBase64 \<rparr>;
                                   prediction = \<lparr> p_cameraId = cam_id cam,
                                                  p_model = model,
                                                  p_timestamp = now,
                                                  p_result = result,
                                                  p_image = imageBase64 \<rparr>
                               in Inr (prediction, s')))))"

text \<open>The \<^verbatim>\<open>catch\<close> logs the exception and returns \<^verbatim>\<open>null\<close>.\<close>

definition sendPrediction ::
  "camera \<Rightarrow> buffer \<Rightarrow> string option \<Rightarrow> int \<Rightarrow> fetch_outcome \<Rightarrow> server_state
     \<Rightarrow> prediction option \<times> server_state" where
  "sendPrediction cam imageBuffer' model now outcome s =
     (case sendPrediction_try cam imageBuffer' model now outcome s of
        Inl e \<Rightarrow> (None, s)
      | Inr (prediction, s') \<Rightarrow> (Some prediction, s'))"


section \<open>predictionLoop\<close>

text \<open>
  What one camera's task meets in one cycle. \<^verbatim>\<open>spawn\<close> may throw inside the executor
  of the promise (\<open>spawn_threw\<close>: the message of the error, and the clock reading
  when the \<^verbatim>\<open>catch\<close> of the loop runs): the promise is then rejected with that
  error, no callback and no timer is registered, and nothing is recorded by
  \<^verbatim>\<open>captureFrame\<close>. Otherwise the task meets the callbacks of its capture, and the
  answer of the inference service with the clock reading when it is handled
  (\<open>None\<close>: no answer yet).
\<close>

record cam_env =
  spawn_threw :: "(int \<times> string) option"
  cap_events :: "(int \<times> capture_event) list"
  dispatch :: "(int \<times> fetch_outcome) option"

datatype task_result = Unsettled | Returned "prediction option"

definition loop_failed_msg :: "camera \<Rightarrow> string \<Rightarrow> string" where
  "loop_failed_msg cam message = ''Camera '' @ show_nat (cam_id cam) @ '' capture failed: '' @ message"

text \<open>
  The \<^verbatim>\<open>catch\<close> around \<^verbatim>\<open>await captureFrame(camera)\<close> runs as a microtask of the
  callback that rejects the promise, before the next callback.
\<close>

definition task_handler ::
  "camera \<Rightarrow> int \<Rightarrow> capture_event \<Rightarrow> capture_state \<times> server_state
     \<Rightarrow> capture_state \<times> server_state" where
  "task_handler cam now ev cs =
     (let (c', s') = capture_handler cam now ev cs
      in (case (settled (fst cs), settled c') of
            (None, Some (Rejected message)) \<Rightarrow>
              (c', addSystemError (cam_id cam) (loop_failed_msg cam message) now s')
          | _ \<Rightarrow> (c', s')))"

fun run_task ::
  "camera \<Rightarrow> (int \<times> capture_event) list \<Rightarrow> capture_state \<times> server_state
     \<Rightarrow> capture_state \<times> server_state" where
  "run_task cam [] cs = cs"
| "run_task cam ((now, ev) # evs) cs = run_task cam evs (task_handler cam now ev cs)"

text \<open>
  The async callback of \<^verbatim>\<open>cameras.map\<close>. When \<^verbatim>\<open>spawn\<close> threw, only its \<^verbatim>\<open>catch\<close> runs:
  one entry, with the message of the thrown error.
\<close>

definition camera_task ::
  "camera \<Rightarrow> string option \<Rightarrow> cam_env \<Rightarrow> server_state \<Rightarrow> task_result \<times> server_state" where
  "camera_task cam currentModel e s =
     (case spawn_threw e of
        Some (now, message) \<Rightarrow>
          (Returned None, addSystemError (cam_id cam) (loop_failed_msg cam message) now s)
      | None \<Rightarrow>
          (let (c, s1) = run_task cam (cap_events e) (capture_start, s)
           in (case settled c of
                 None \<Rightarrow> (Unsettled, s1)
               | Some (Rejected message) \<Rightarrow> (Returned None, s1)
               | Some (Resolved imageBuffer') \<Rightarrow>
                   (case dispatch e of
                      None \<Rightarrow> (Unsettled, s1)
                    | Some (now, outcome) \<Rightarrow>
                        (let (r, s2) = sendPrediction cam imageBuffer' currentModel now outcome s1
                         in (Returned r, s2))))))"

text \<open>
  The tasks of one cycle. They run concurrently: the event loop runs the callbacks
  of all cameras in the order of their events. The model runs the callbacks of one
  camera after those of the camera before it. The callbacks of different cameras
  touch nothing in common but the error history and the latest frame, so this fixes
  the relative order of the error entries of different cameras, and which frame is
  the latest, and nothing else; what is proved below
  of the cursor, of the caps and of the model list rests on what each single
  callback may change (\<open>task_frame\<close>), in whatever order the callbacks run.
\<close>

fun run_tasks ::
  "(nat \<Rightarrow> cam_env) \<Rightarrow> string option \<Rightarrow> nat \<Rightarrow> camera list \<Rightarrow> server_state
     \<Rightarrow> task_result list \<times> server_state" where
  "run_tasks env currentModel i [] s = ([], s)"
| "run_tasks env currentModel i (cam # cams) s =
     (let (r, s1) = camera_task cam currentModel (env i) s;
          (rs, s2) = run_tasks env currentModel (Suc i) cams s1
      in (r # rs, s2))"

fun returned :: "task_result \<Rightarrow> prediction option" where
  "returned (Returned r) = r"
| "returned Unsettled = None"

datatype loop_result = Skipped | Unfinished | Completed "prediction option list"

text \<open>
  One call of \<^verbatim>\<open>predictionLoop\<close> with everything its tasks meet. The cursor moves in
  the synchronous part, after the tasks are started and before any callback runs.
  \<^verbatim>\<open>Promise.all\<close> resolves when every task has returned; until then nothing is
  committed.
\<close>

definition predictionLoop :: "(nat \<Rightarrow> cam_env) \<Rightarrow> server_state \<Rightarrow> loop_result \<times> server_state" where
  "predictionLoop env s =
     (if length (cameras s) = 0 \<or> length (currentModels s) = 0 then (Skipped, s)
      else (let currentModel = js_index (currentModels s) (currentModelIndex s);
                s0 = s\<lparr> currentModelIndex :=
                          (currentModelIndex s + 1) mod length (currentModels s) \<rparr>;
                (rs, s1) = run_tasks env currentModel 0 (cameras s) s0
            in if Unsettled \<in> set rs then (Unfinished, s1)
               else (let p = map returned rs
                     in (Completed p, commit_predictions p s1))))"

text \<open>
  \<^verbatim>\<open>initialize\<close> with the awaited result of \<^verbatim>\<open>detectCameras\<close>. The flag says whether
  \<^verbatim>\<open>setInterval(predictionLoop, 2000)\<close> was reached: with no camera it returns before.
\<close>

definition initialize :: "camera list \<Rightarrow> server_state \<Rightarrow> server_state \<times> bool" where
  "initialize detected s =
     (let s' = s\<lparr> cameras := detected \<rparr>
      in if length (cameras s') = 0 then (s', False) else (s', True))"

text \<open>
  The ticks of the interval timer, one environment per tick. A tick may come while
  the tasks of the tick before are still running; the model lets each cycle end
  before the next begins, which again fixes only the order in which the cycles
  write the two histories.
\<close>

fun run_ticks :: "(nat \<Rightarrow> cam_env) list \<Rightarrow> server_state \<Rightarrow> server_state" where
  "run_ticks [] s = s"
| "run_ticks (env # envs) s = run_ticks envs (snd (predictionLoop env s))"

text \<open>The model each tick selects, and the cursor it starts from.\<close>

fun selected_models :: "(nat \<Rightarrow> cam_env) list \<Rightarrow> server_state \<Rightarrow> string option list" where
  "selected_models [] s = []"
| "selected_models (env # envs) s =
     js_index (currentModels s) (currentModelIndex s)
       # selected_models envs (snd (predictionLoop env s))"

fun cursor_trace :: "(nat \<Rightarrow> cam_env) list \<Rightarrow> server_state \<Rightarrow> nat list" where
  "cursor_trace [] s = []"
| "cursor_trace (env # envs) s =
     currentModelIndex s # cursor_trace envs (snd (predictionLoop env s))"


section \<open>Read endpoints\<close>

text \<open>
  An object with integer keys: \<^verbatim>\<open>Object.values\<close> lists them in ascending order, so
  the object is an association list kept in that order.
\<close>

fun obj_set :: "nat \<Rightarrow> 'v \<Rightarrow> (nat \<times> 'v) list \<Rightarrow> (nat \<times> 'v) list" where
  "obj_set k v [] = [(k, v)]"
| "obj_set k v ((k', v') # kvs) =
     (if k < k' then (k, v) # (k', v') # kvs
      else if k = k' then (k, v) # kvs
      else (k', v') # obj_set k v kvs)"

definition latest_step :: "(nat \<times> prediction) list \<Rightarrow> prediction \<Rightarrow> (nat \<times> prediction) list" where
  "latest_step latestByCamera p =
     (case map_of latestByCamera (p_cameraId p) of
        None \<Rightarrow> obj_set (p_cameraId p) p latestByCamera
      | Some q \<Rightarrow>
          if p_timestamp p > p_timestamp q then obj_set (p_cameraId p) p latestByCamera
          else latestByCamera)"

definition latestByCamera :: "prediction list \<Rightarrow> (nat \<times> prediction) list" where
  "latestByCamera ps = foldl latest_step [] ps"

text \<open>\<^verbatim>\<open>GET /api/predictions/latest\<close>\<close>

definition api_predictions_latest :: "server_state \<Rightarrow> prediction list" where
  "api_predictions_latest s = map snd (latestByCamera (predictions s))"


section \<open>getModelList\<close>

definition API_MAIN :: string where
  "API_MAIN = ''https://vertiapp.xyz''"

definition API_MODEL_LIST_ENDPOINT :: string where
  "API_MODEL_LIST_ENDPOINT = ''/list-models''"

definition model_list_url :: string where
  "model_list_url = API_MAIN @ API_MODEL_LIST_ENDPOINT"

text \<open>
  What \<^verbatim>\<open>axios.get\<close> gives: a rejection (no answer, or a status outside 2xx), or a
  response with its \<^verbatim>\<open>data\<close> (\<open>None\<close>: \<^verbatim>\<open>undefined\<close>).
\<close>

datatype axios_outcome = AxiosRejected string | AxiosResponse "json option"

definition getModelList :: "axios_outcome \<Rightarrow> json" where
  "getModelList outcome =
     (case outcome of
        AxiosResponse data \<Rightarrow> (if truthy data then the data else JArr [])
      | AxiosRejected e \<Rightarrow> JArr [JStr ''bacterial-disease'', JStr ''early-blight''])"


section \<open>detectCameras\<close>

datatype platform = Linux | Windows | OtherOS

text \<open>
  The probe process: \<^verbatim>\<open>spawn\<close> throws at once, or the child emits events. An
  \<^verbatim>\<open>error\<close> event (the utility is not found) is emitted on the child; an emitter
  with no \<^verbatim>\<open>error\<close> listener throws it, and nothing in server.js catches that.
\<close>

datatype probe_event = ProbeStdout string | ProbeStderr string | ProbeClose | ProbeError string

datatype probe = SpawnThrows string | Spawned "probe_event list"

datatype 'a promise = Pending | Fulfilled 'a | Uncaught string

definition resolve :: "'a \<Rightarrow> 'a promise \<Rightarrow> 'a promise" where
  "resolve v r = (case r of Pending \<Rightarrow> Fulfilled v | _ \<Rightarrow> r)"

definition stream_url :: "nat \<Rightarrow> string" where
  "stream_url port = ''http://localhost:'' @ show_nat port @ ''/stream''"

subsection \<open>Linux: v4l2-ctl --list-devices\<close>

record v4l2_camera =
  v_name :: string
  v_devices :: "string list"

definition linux_line ::
  "v4l2_camera list \<times> v4l2_camera option \<Rightarrow> string \<Rightarrow> v4l2_camera list \<times> v4l2_camera option" where
  "linux_line st line =
     (let cams = fst st; currentCamera = snd st; trimmedLine = js_trim line
      in if js_includes trimmedLine ''pispbe'' \<or> js_includes trimmedLine ''rpivid''
              \<or> js_includes trimmedLine ''/dev/media''
         then (cams, currentCamera)
         else if length trimmedLine > 0 \<and> \<not> startsWith trimmedLine ''/dev/''
                   \<and> endsWith trimmedLine ''):''
         then (cams, Some \<lparr> v_name = js_trim (remove_first (CHR '':'') trimmedLine),
                             v_devices = [] \<rparr>)
         else if startsWith trimmedLine ''/dev/video'' \<and> currentCamera \<noteq> None
         then (case currentCamera of
                 None \<Rightarrow> (cams, None)
               | Some cc \<Rightarrow>
                   if length (v_devices cc) = 0
                   then (cams @ [cc\<lparr> v_devices := v_devices cc @ [trimmedLine] \<rparr>], None)
                   else (cams, None))
         else (cams, currentCamera))"

text \<open>The loop over the lines: the device groups found, in the order of the lines.\<close>

definition linux_scan :: "string list \<Rightarrow> v4l2_camera list" where
  "linux_scan lines = fst (foldl linux_line ([], None) lines)"

definition linux_parse :: "string \<Rightarrow> v4l2_camera list" where
  "linux_parse output = linux_scan (split_on (CHR 0x0A) output)"

text \<open>The object pushed for the group \<open>c\<close> at the index \<open>i\<close>.\<close>

definition linux_camera :: "nat \<Rightarrow> v4l2_camera \<Rightarrow> camera" where
  "linux_camera i c =
     \<lparr> cam_id = i,
       cam_name = Some (v_name c),
       device = js_index (v_devices c) 0,
       streamPort = 20000 + i,
       streamUrl = stream_url (20000 + i) \<rparr>"

text \<open>The loop \<^verbatim>\<open>for (let i = 0; i < cameras.length; i++)\<close> that builds the descriptors.\<close>

fun linux_cameras :: "nat \<Rightarrow> v4l2_camera list \<Rightarrow> camera list" where
  "linux_cameras i [] = []"
| "linux_cameras i (c # cs) = linux_camera i c # linux_cameras (Suc i) cs"

fun linux_probe :: "probe_event list \<Rightarrow> string \<Rightarrow> camera list promise \<Rightarrow> camera list promise" where
  "linux_probe [] output r = r"
| "linux_probe (ProbeStdout d # evs) output r = linux_probe evs (output @ d) r"
| "linux_probe (ProbeStderr d # evs) output r = linux_probe evs output r"
| "linux_probe (ProbeClose # evs) output r =
     linux_probe evs output (resolve (linux_cameras 0 (linux_parse output)) r)"
| "linux_probe (ProbeError e # evs) output r = linux_probe evs output (resolve [] r)"

subsection \<open>Windows: ffmpeg -list_devices true -f dshow -i dummy\<close>

definition dquote :: char where
  "dquote = CHR 0x22"

text \<open>
  The regular expression \<^verbatim>\<open>\] "([^"]+)" \(video\)\<close> at the start of \<open>s\<close>: the group is
  the run of characters up to the next double quote, and is not empty.
\<close>

definition match_video_at :: "string \<Rightarrow> string option" where
  "match_video_at s =
     (if startsWith s (''] '' @ [dquote])
      then (let rest = drop 3 s;
                name = takeWhile (\<lambda>c. c \<noteq> dquote) rest;
                after = dropWhile (\<lambda>c. c \<noteq> dquote) rest
            in if name \<noteq> [] \<and> startsWith after ([dquote] @ '' (video)'') then Some name else None)
      else None)"

text \<open>\<^verbatim>\<open>line.match\<close>: the leftmost position where the expression matches.\<close>

fun match_video :: "string \<Rightarrow> string option" where
  "match_video [] = None"
| "match_video (c # cs) =
     (case match_video_at (c # cs) of
        Some name \<Rightarrow> Some name
      | None \<Rightarrow> match_video cs)"

text \<open>The body of the loop over the lines, on \<^verbatim>\<open>detectedCameras\<close> and \<^verbatim>\<open>cameraIndex\<close>.\<close>

text \<open>The object pushed for the device name at the index \<open>cameraIndex\<close>.\<close>

definition windows_camera :: "nat \<Rightarrow> string \<Rightarrow> camera" where
  "windows_camera cameraIndex deviceName =
     \<lparr> cam_id = cameraIndex,
       cam_name = None,
       device = Some deviceName,
       streamPort = 20000 + cameraIndex,
       streamUrl = stream_url (20000 + cameraIndex) \<rparr>"

definition windows_line :: "camera list \<times> nat \<Rightarrow> string \<Rightarrow> camera list \<times> nat" where
  "windows_line st line =
     (let detectedCameras = fst st; cameraIndex = snd st
      in if js_includes line (''] '' @ [dquote]) \<and> js_includes line ([dquote] @ '' (video)'')
         then (case match_video line of
                 Some deviceName \<Rightarrow>
                   (detectedCameras @ [windows_camera cameraIndex deviceName], cameraIndex + 1)
               | None \<Rightarrow> (detectedCameras, cameraIndex))
         else (detectedCameras, cameraIndex))"

definition windows_parse :: "string \<Rightarrow> camera list" where
  "windows_parse output = fst (foldl windows_line ([], 0) (split_on (CHR 0x0A) output))"

fun windows_probe :: "probe_event list \<Rightarrow> string \<Rightarrow> camera list promise \<Rightarrow> camera list promise" where
  "windows_probe [] output r = r"
| "windows_probe (ProbeStderr d # evs) output r = windows_probe evs (output @ d) r"
| "windows_probe (ProbeStdout d # evs) output r = windows_probe evs output r"
| "windows_probe (ProbeClose # evs) output r =
     windows_probe evs output (resolve (windows_parse output) r)"
| "windows_probe (ProbeError e # evs) output r = Uncaught e"

subsection \<open>What the probe enumerates\<close>

text \<open>
  The video device that a line of the ffmpeg listing names, if it names one; and
  the video devices of a listing, in the order of its lines.
\<close>

definition video_device :: "string \<Rightarrow> string option" where
  "video_device line =
     (if js_includes line (''] '' @ [dquote]) \<and> js_includes line ([dquote] @ '' (video)'')
      then match_video line else None)"

definition windows_devices :: "string \<Rightarrow> string list" where
  "windows_devices output = List.map_filter video_device (split_on (CHR 0x0A) output)"

text \<open>
  What a line of the v4l2-ctl listing is to the loop: a line of an internal device,
  which is skipped; the name of a device group (a line that ends with \<^verbatim>\<open>):\<close> and is
  not a path); a video node; or anything else.
\<close>

datatype v4l2_line = InternalLine | GroupName string | VideoNode string | OtherLine

definition v4l2_line_of :: "string \<Rightarrow> v4l2_line" where
  "v4l2_line_of line =
     (let t = js_trim line
      in if js_includes t ''pispbe'' \<or> js_includes t ''rpivid'' \<or> js_includes t ''/dev/media''
         then InternalLine
         else if length t > 0 \<and> \<not> startsWith t ''/dev/'' \<and> endsWith t ''):''
         then GroupName (js_trim (remove_first (CHR '':'') t))
         else if startsWith t ''/dev/video'' then VideoNode t
         else OtherLine)"

text \<open>
  The groups of a listing with a video node, in the order of its lines: each name
  with the first video node that follows it before the next name.
\<close>

fun first_nodes :: "string option \<Rightarrow> v4l2_line list \<Rightarrow> (string \<times> string) list" where
  "first_nodes cur [] = []"
| "first_nodes cur (GroupName n # ls) = first_nodes (Some n) ls"
| "first_nodes (Some n) (VideoNode d # ls) = (n, d) # first_nodes None ls"
| "first_nodes cur (l # ls) = first_nodes cur ls"

definition linux_devices :: "string \<Rightarrow> (string \<times> string) list" where
  "linux_devices output = first_nodes None (map v4l2_line_of (split_on (CHR 0x0A) output))"

text \<open>The group that the loop pushes for a name and its first video node.\<close>

definition v4l2_group :: "string \<times> string \<Rightarrow> v4l2_camera" where
  "v4l2_group nd = \<lparr> v_name = fst nd, v_devices = [snd nd] \<rparr>"

text \<open>
  The text that the listener of the platform (stdout on Linux, stderr on Windows)
  has received when the probe closes; and whether the probe emits \<^verbatim>\<open>error\<close> before
  it closes.
\<close>

fun probe_text :: "platform \<Rightarrow> probe_event list \<Rightarrow> string" where
  "probe_text os [] = []"
| "probe_text os (ProbeClose # evs) = []"
| "probe_text os (ProbeStdout d # evs) = (if os = Linux then d else []) @ probe_text os evs"
| "probe_text os (ProbeStderr d # evs) = (if os = Windows then d else []) @ probe_text os evs"
| "probe_text os (ProbeError e # evs) = probe_text os evs"

fun error_first :: "probe_event list \<Rightarrow> bool" where
  "error_first [] = False"
| "error_first (ProbeClose # evs) = False"
| "error_first (ProbeError e # evs) = True"
| "error_first (ev # evs) = error_first evs"

text \<open>The descriptors of a list of enumerated items, numbered from 0 in their order.\<close>

definition numbered :: "(nat \<Rightarrow> 'a \<Rightarrow> camera) \<Rightarrow> 'a list \<Rightarrow> camera list" where
  "numbered mk xs = map (\<lambda>(i, x). mk i x) (enumerate 0 xs)"


subsection \<open>The whole function\<close>

text \<open>
  A throw of \<^verbatim>\<open>spawn\<close> is caught and logged, and so is any other platform: the
  function returns the empty \<^verbatim>\<open>detectedCameras\<close>.
\<close>

definition detectCameras :: "platform \<Rightarrow> probe \<Rightarrow> camera list promise" where
  "detectCameras os p =
     (case os of
        Linux \<Rightarrow> (case p of
                    SpawnThrows e \<Rightarrow> Fulfilled []
                  | Spawned evs \<Rightarrow> linux_probe evs [] Pending)
      | Windows \<Rightarrow> (case p of
                      SpawnThrows e \<Rightarrow> Fulfilled []
                    | Spawned evs \<Rightarrow> windows_probe evs [] Pending)
      | OtherOS \<Rightarrow> Fulfilled [])"

text \<open>
  What the callbacks of process events keep: the promise is not rejected with the
  timeout message, and it is resolved only after data.
\<close>

definition proc_inv :: "camera \<Rightarrow> capture_state \<Rightarrow> bool" where
  "proc_inv cam c \<longleftrightarrow>
     settled c \<noteq> Some (Rejected (capture_timeout_msg cam))
     \<and> (\<forall>b. settled c = Some (Resolved b) \<longrightarrow> hasData c)"


section \<open>Sequences of insertions, and what a task may change\<close>

text \<open>The entries and the batches of a run, inserted one after the other.\<close>

fun record_errors :: "(nat \<times> string \<times> int) list \<Rightarrow> server_state \<Rightarrow> server_state" where
  "record_errors [] s = s"
| "record_errors ((cameraId, err, now) # es) s = record_errors es (addSystemError cameraId err now s)"

fun record_batches :: "prediction option list list \<Rightarrow> server_state \<Rightarrow> server_state" where
  "record_batches [] s = s"
| "record_batches (p # ps) s = record_batches ps (commit_predictions p s)"

definition entry_of :: "nat \<times> string \<times> int \<Rightarrow> error_entry" where
  "entry_of e = \<lparr> e_cameraId = fst e, e_error = fst (snd e), e_timestamp = snd (snd e) \<rparr>"

definition successes :: "prediction option list \<Rightarrow> prediction list" where
  "successes p = map the (filter (\<lambda>pred. pred \<noteq> None) p)"

text \<open>
  A task leaves the cameras, the models, the cursor and the predictions alone; the
  error history is the old one, or new entries in front of it cut to 50.
\<close>

definition extended :: "nat \<Rightarrow> 'a list \<Rightarrow> 'a list \<Rightarrow> bool" where
  "extended cap old new \<longleftrightarrow> new = old \<or> (\<exists>ins. new = take cap (ins @ old))"

definition task_frame :: "server_state \<Rightarrow> server_state \<Rightarrow> bool" where
  "task_frame s s' \<longleftrightarrow>
     cameras s' = cameras s \<and> currentModels s' = currentModels s
     \<and> currentModelIndex s' = currentModelIndex s \<and> predictions s' = predictions s
     \<and> extended 50 (systemErrors s) (systemErrors s')"

text \<open>
  A cycle leaves the cameras and the models alone; each history is the old one, or
  new records in front of it cut to its cap.
\<close>

definition cycle_frame :: "server_state \<Rightarrow> server_state \<Rightarrow> bool" where
  "cycle_frame s s' \<longleftrightarrow>
     cameras s' = cameras s \<and> currentModels s' = currentModels s
     \<and> extended 100 (predictions s) (predictions s')
     \<and> extended 50 (systemErrors s) (systemErrors s')"

text \<open>
  What the loop of \<^verbatim>\<open>/api/predictions/latest\<close> keeps while it has read \<open>ps\<close>: a key
  for each camera met and no other, holding a record of that camera that no record
  of that camera is later than; the keys ascend.
\<close>

definition latest_inv :: "prediction list \<Rightarrow> (nat \<times> prediction) list \<Rightarrow> bool" where
  "latest_inv ps obj \<longleftrightarrow>
     (\<forall>c. case map_of obj c of
            None \<Rightarrow> c \<notin> p_cameraId ` set ps
          | Some p \<Rightarrow> p \<in> set ps \<and> p_cameraId p = c
                      \<and> (\<forall>q\<in>set ps. p_cameraId q = c \<longrightarrow> p_timestamp q \<le> p_timestamp p))
     \<and> sorted (map fst obj) \<and> distinct (map fst obj)"


section \<open>The interval timer\<close>

text \<open>
  \<open>ticking s0 s\<close>: started on the module state \<open>s0\<close>, the interval timer calls
  \<^verbatim>\<open>predictionLoop\<close> in the state \<open>s\<close>. The timer is registered by \<^verbatim>\<open>initialize\<close>, and
  only when it found a camera; its ticks are the only calls of \<^verbatim>\<open>predictionLoop\<close>.
\<close>

inductive ticking :: "server_state \<Rightarrow> server_state \<Rightarrow> bool" where
  started: "initialize detected s0 = (s, True) \<Longrightarrow> ticking s0 s"
| tick: "ticking s0 s \<Longrightarrow> ticking s0 (snd (predictionLoop env s))"


section \<open>Sample data\<close>

definition sample_camera :: camera where
  "sample_camera =
     \<lparr> cam_id = 0, cam_name = Some ''USB Camera (usb-0000:01:00.0-1)'', device = Some ''/dev/video0'',
       streamPort = 20000, streamUrl = ''http://localhost:20000/stream'' \<rparr>"

definition sample_state :: server_state where
  "sample_state = fst (initialize [sample_camera] initial_state)"

definition sample_prediction :: "nat \<Rightarrow> int \<Rightarrow> prediction" where
  "sample_prediction cam t =
     \<lparr> p_cameraId = cam, p_model = Some ''lettuce-diseases'', p_timestamp = t,
       p_result = JObj [(''detections'', JArr [])], p_image = JpegDataUrl [0xFF, 0xD8] \<rparr>"

definition sample_history :: server_state where
  "sample_history =
     sample_state\<lparr> predictions :=
       [sample_prediction 0 10, sample_prediction 0 20, sample_prediction 1 5] \<rparr>"

text \<open>A capture that ends with exit code 1 and no output.\<close>

definition sample_env_failed :: "nat \<Rightarrow> cam_env" where
  "sample_env_failed i = \<lparr> spawn_threw = None, cap_events = [(100, Proc (ProcClose (Some 1)))], dispatch = None \<rparr>"

text \<open>A capture that delivers two bytes and exits with 0, answered with no error field.\<close>

definition sample_env_ok :: "nat \<Rightarrow> cam_env" where
  "sample_env_ok i =
     \<lparr> spawn_threw = None, cap_events = [(100, Proc (StdoutData [0xFF, 0xD8])), (120, Proc (ProcClose (Some 0)))],
       dispatch = Some (300, FetchResponse True 200 (Some (JObj [(''detections'', JArr [])]))) \<rparr>"

text \<open>The output of \<^verbatim>\<open>v4l2-ctl --list-devices\<close> on a board with two USB cameras.\<close>

definition sample_v4l2_output :: string where
  "sample_v4l2_output =
     ''pispbe (platform:1000880000.pisp_be):'' @ [CHR 0x0A] @
     [CHR 0x09] @ ''/dev/video20'' @ [CHR 0x0A] @
     [CHR 0x09] @ ''/dev/media0'' @ [CHR 0x0A] @
     [CHR 0x0A] @
     ''USB Camera (usb-xhci-hcd.0-1):'' @ [CHR 0x0A] @
     [CHR 0x09] @ ''/dev/video0'' @ [CHR 0x0A] @
     [CHR 0x09] @ ''/dev/video1'' @ [CHR 0x0A] @
     [CHR 0x09] @ ''/dev/media3'' @ [CHR 0x0A] @
     [CHR 0x0A] @
     ''HD Webcam (usb-xhci-hcd.1-2):'' @ [CHR 0x0A] @
     [CHR 0x09] @ ''/dev/video2'' @ [CHR 0x0A] @
     [CHR 0x09] @ ''/dev/video3'' @ [CHR 0x0A]"

definition sample_detected :: "camera list" where
  "sample_detected =
     [\<lparr> cam_id = 0, cam_name = Some ''USB Camera (usb-xhci-hcd.0-1)'', device = Some ''/dev/video0'',
         streamPort = 20000, streamUrl = ''http://localhost:20000/stream'' \<rparr>,
      \<lparr> cam_id = 1, cam_name = Some ''HD Webcam (usb-xhci-hcd.1-2)'', device = Some ''/dev/video2'',
         streamPort = 20001, streamUrl = ''http://localhost:20001/stream'' \<rparr>]"


text \<open>The listing of \<^verbatim>\<open>ffmpeg -list_devices true -f dshow -i dummy\<close> with two cameras.\<close>

definition sample_dshow_output :: string where
  "sample_dshow_output =
     ''[dshow @ 0000021f] DirectShow video devices'' @ [CHR 0x0A] @
     ''[dshow @ 0000021f] '' @ [dquote] @ ''Integrated Camera'' @ [dquote] @ '' (video)'' @ [CHR 0x0A] @
     ''[dshow @ 0000021f]   Alternative name '' @ [dquote] @ ''@device_pnp_usb#vid_04f2'' @ [dquote] @ [CHR 0x0A] @
     ''[dshow @ 0000021f] '' @ [dquote] @ ''USB2.0 HD UVC WebCam'' @ [dquote] @ '' (video)'' @ [CHR 0x0A] @
     ''[dshow @ 0000021f] '' @ [dquote] @ ''Microphone (Realtek Audio)'' @ [dquote] @ '' (audio)'' @ [CHR 0x0A]"

definition sample_detected_windows :: "camera list" where
  "sample_detected_windows =
     [\<lparr> cam_id = 0, cam_name = None, device = Some ''Integrated Camera'',
         streamPort = 20000, streamUrl = ''http://localhost:20000/stream'' \<rparr>,
      \<lparr> cam_id = 1, cam_name = None, device = Some ''USB2.0 HD UVC WebCam'',
         streamPort = 20001, streamUrl = ''http://localhost:20001/stream'' \<rparr>]"


section \<open>Failures of a dispatch\<close>

text \<open>
  The parsed response carries an error: \<^verbatim>\<open>result['error']\<close> is truthy. The three
  failures of a dispatch: \<^verbatim>\<open>fetch\<close> rejects, the status is not a success
  (\<^verbatim>\<open>response.ok\<close> is false), or the parsed response carries an error.
\<close>

definition error_field_set :: "json \<Rightarrow> bool" where
  "error_field_set result = (case get_error result of Inl e \<Rightarrow> False | Inr err \<Rightarrow> truthy err)"

fun dispatch_failure :: "fetch_outcome \<Rightarrow> bool" where
  "dispatch_failure (FetchRejected e) = True"
| "dispatch_failure (FetchResponse ok status body) =
     (\<not> ok \<or> (case body of None \<Rightarrow> False | Some result \<Rightarrow> error_field_set result))"






section \<open>Properties\<close>

subsection \<open>The sample data\<close>

lemma sample_facts [simp]:
  "cameras sample_state = [sample_camera]"
  "currentModels sample_state = [''lettuce-diseases'', ''malabar-spinach-training'']"
  "currentModelIndex sample_state = 0"
  "systemErrors sample_state = []"
  "predictions sample_state = []"
  "cam_id sample_camera = 0"
  by (simp_all add: sample_state_def initialize_def initial_state_def sample_camera_def)


subsection \<open>Frame lemmas\<close>

lemma take_append_take: "take n (xs @ take n ys) = take n (xs @ ys)"
  by (simp add: min_def)

lemma addSystemError_errors:
  "systemErrors (addSystemError cameraId err now s) =
     take 50 (\<lparr> e_cameraId = cameraId, e_error = err, e_timestamp = now \<rparr> # systemErrors s)"
  by (simp add: addSystemError_def Let_def)

lemma addSystemError_other [simp]:
  "cameras (addSystemError cameraId err now s) = cameras s"
  "currentModels (addSystemError cameraId err now s) = currentModels s"
  "currentModelIndex (addSystemError cameraId err now s) = currentModelIndex s"
  "predictions (addSystemError cameraId err now s) = predictions s"
  "imageBase (addSystemError cameraId err now s) = imageBase s"
  by (simp_all add: addSystemError_def Let_def)

lemma commit_predictions_predictions:
  "predictions (commit_predictions p s) =
     take 100 (map the (filter (\<lambda>pred. pred \<noteq> None) p) @ predictions s)"
  by (simp add: commit_predictions_def Let_def)

lemma commit_predictions_other [simp]:
  "cameras (commit_predictions p s) = cameras s"
  "currentModels (commit_predictions p s) = currentModels s"
  "currentModelIndex (commit_predictions p s) = currentModelIndex s"
  "systemErrors (commit_predictions p s) = systemErrors s"
  "imageBase (commit_predictions p s) = imageBase s"
  by (simp_all add: commit_predictions_def Let_def)

lemma extended_refl: "extended cap xs xs"
  by (simp add: extended_def)

lemma extended_trans:
  assumes "extended cap xs ys" and "extended cap ys zs"
  shows "extended cap xs zs"
proof (cases "ys = xs")
  case True
  then show ?thesis using assms(2) by simp
next
  case False
  then obtain n1 where n1: "ys = take cap (n1 @ xs)"
    using assms(1) by (auto simp: extended_def)
  show ?thesis
  proof (cases "zs = ys")
    case True
    then show ?thesis using assms(1) by simp
  next
    case False
    then obtain n2 where "zs = take cap (n2 @ ys)"
      using assms(2) by (auto simp: extended_def)
    then have "zs = take cap ((n2 @ n1) @ xs)"
      using n1 take_append_take [of cap n2 "n1 @ xs"] by simp
    then have "\<exists>ins. zs = take cap (ins @ xs)"
      by (rule exI)
    then show ?thesis by (simp add: extended_def)
  qed
qed

lemma extended_take: "extended cap xs (take cap (ins @ xs))"
proof -
  have "\<exists>i. take cap (ins @ xs) = take cap (i @ xs)" by (rule exI) (rule refl)
  then show ?thesis by (simp add: extended_def)
qed

lemma extended_bounded:
  assumes "extended cap xs ys" and "length xs \<le> cap"
  shows "length ys \<le> cap \<and> (\<exists>ins. ys = take cap (ins @ xs))"
proof (cases "ys = xs")
  case True
  have "xs = take cap ([] @ xs)" using assms(2) by simp
  then have "\<exists>ins. xs = take cap (ins @ xs)" by (rule exI)
  then show ?thesis using True assms(2) by simp
next
  case False
  then obtain ins where "ys = take cap (ins @ xs)"
    using assms(1) by (auto simp: extended_def)
  then show ?thesis by auto
qed

lemma task_frame_refl: "task_frame s s"
  by (simp add: task_frame_def extended_refl)

lemma task_frame_trans:
  assumes "task_frame s s'" and "task_frame s' s''"
  shows "task_frame s s''"
proof -
  have "extended 50 (systemErrors s) (systemErrors s'')"
    using assms extended_trans [of 50 "systemErrors s" "systemErrors s'" "systemErrors s''"]
    by (simp add: task_frame_def)
  then show ?thesis using assms by (simp add: task_frame_def)
qed

lemma task_frame_addSystemError: "task_frame s (addSystemError cameraId err now s)"
proof -
  have "systemErrors (addSystemError cameraId err now s) =
          take 50 ([\<lparr> e_cameraId = cameraId, e_error = err, e_timestamp = now \<rparr>] @ systemErrors s)"
    by (simp add: addSystemError_errors)
  then have "extended 50 (systemErrors s) (systemErrors (addSystemError cameraId err now s))"
    by (simp only: extended_take)
  then show ?thesis
    by (simp add: task_frame_def)
qed

lemma capture_handler_frame: "task_frame (snd cs) (snd (capture_handler cam now ev cs))"
proof (cases cs)
  case (Pair c s)
  show ?thesis
  proof (cases ev)
    case (Proc pe)
    then show ?thesis using Pair
      by (cases pe) (simp_all add: task_frame_refl task_frame_addSystemError Let_def)
  next
    case TimerFired
    then show ?thesis using Pair
      by (simp add: task_frame_refl task_frame_addSystemError Let_def)
  qed
qed

lemma task_handler_frame: "task_frame (snd cs) (snd (task_handler cam now ev cs))"
proof -
  obtain c' s' where h: "capture_handler cam now ev cs = (c', s')" by (cases "capture_handler cam now ev cs")
  have f1: "task_frame (snd cs) s'" using capture_handler_frame [of cs cam now ev] h by simp
  have "snd (task_handler cam now ev cs) = s' \<or>
        (\<exists>m. snd (task_handler cam now ev cs) = addSystemError (cam_id cam) m now s')"
    by (auto simp: task_handler_def h split: option.splits settlement.splits)
  then show ?thesis
    using f1 task_frame_trans task_frame_addSystemError by metis
qed

lemma run_task_frame: "task_frame (snd cs) (snd (run_task cam evs cs))"
proof (induction evs arbitrary: cs)
  case Nil
  show ?case by (simp add: task_frame_refl)
next
  case (Cons e evs)
  obtain now ev where e: "e = (now, ev)" by (cases e)
  show ?case
    using Cons [of "task_handler cam now ev cs"] task_handler_frame [of cs cam now ev]
    by (simp add: e) (rule task_frame_trans)
qed

lemma sendPrediction_frame:
  "sendPrediction cam b m now outcome s = (r, s') \<Longrightarrow> task_frame s s'"
  by (auto simp: sendPrediction_def sendPrediction_try_def task_frame_def extended_refl Let_def
          split: fetch_outcome.splits option.splits sum.splits if_splits)

lemma camera_task_frame: "task_frame s (snd (camera_task cam m e s))"
proof (cases "spawn_threw e")
  case (Some t)
  obtain now message where "t = (now, message)" by (cases t)
  then show ?thesis using Some by (simp add: camera_task_def task_frame_addSystemError)
next
  case nothrow: None
  show ?thesis
  proof -
    obtain c s1 where h: "run_task cam (cap_events e) (capture_start, s) = (c, s1)"
      by (cases "run_task cam (cap_events e) (capture_start, s)")
    have f1: "task_frame s s1" using run_task_frame [of "(capture_start, s)" cam "cap_events e"] h by simp
    show ?thesis
    proof (cases "settled c")
      case None
      then show ?thesis using f1 h by (simp add: camera_task_def nothrow)
    next
      case (Some st)
      show ?thesis
      proof (cases st)
        case (Rejected msg)
        then show ?thesis using f1 h Some by (simp add: camera_task_def nothrow)
      next
        case (Resolved buf)
        show ?thesis
        proof (cases "dispatch e")
          case None
          then show ?thesis using f1 h Some Resolved by (simp add: camera_task_def nothrow)
        next
          case (Some d)
          obtain now outcome where d: "d = (now, outcome)" by (cases d)
          obtain r s2 where sp: "sendPrediction cam buf m now outcome s1 = (r, s2)"
            by (cases "sendPrediction cam buf m now outcome s1")
          have "task_frame s1 s2" using sendPrediction_frame [OF sp] .
          then have "task_frame s s2" using f1 task_frame_trans by blast
          then show ?thesis using h \<open>settled c = Some st\<close> Resolved Some d sp
            by (simp add: camera_task_def nothrow)
        qed
      qed
    qed
  qed
qed

lemma run_tasks_frame: "task_frame s (snd (run_tasks env m i cams s))"
proof (induction cams arbitrary: s i)
  case Nil
  show ?case by (simp add: task_frame_refl)
next
  case (Cons cam cams)
  obtain r s1 where h: "camera_task cam m (env i) s = (r, s1)" by (cases "camera_task cam m (env i) s")
  have f1: "task_frame s s1" using camera_task_frame [of s cam m "env i"] h by simp
  have f2: "task_frame s1 (snd (run_tasks env m (Suc i) cams s1))" using Cons .
  show ?case using task_frame_trans [OF f1 f2] h
    by (simp add: split_beta)
qed

subsection \<open>The history buffers\<close>

lemma record_errors_errors:
  "length (systemErrors s) \<le> 50 \<Longrightarrow>
   systemErrors (record_errors es s) = take 50 (rev (map entry_of es) @ systemErrors s)"
proof (induction es arbitrary: s)
  case Nil
  then show ?case by simp
next
  case (Cons e es)
  obtain cameraId err now where e: "e = (cameraId, err, now)" by (cases e)
  let ?s' = "addSystemError cameraId err now s"
  have len: "length (systemErrors ?s') \<le> 50" by (simp add: addSystemError_errors)
  have "systemErrors (record_errors (e # es) s) = take 50 (rev (map entry_of es) @ systemErrors ?s')"
    using Cons.IH [OF len] by (simp add: e)
  also have "\<dots> = take 50 (rev (map entry_of es) @ take 50 (entry_of e # systemErrors s))"
    by (simp only: addSystemError_errors e entry_of_def fst_conv snd_conv)
  also have "\<dots> = take 50 (rev (map entry_of es) @ (entry_of e # systemErrors s))"
    by (rule take_append_take)
  finally show ?case by simp
qed

lemma record_batches_predictions:
  "length (predictions s) \<le> 100 \<Longrightarrow>
   predictions (record_batches ps s) = take 100 (concat (rev (map successes ps)) @ predictions s)"
proof (induction ps arbitrary: s)
  case Nil
  then show ?case by simp
next
  case (Cons p ps)
  let ?s' = "commit_predictions p s"
  have len: "length (predictions ?s') \<le> 100" by (simp add: commit_predictions_predictions)
  have "predictions (record_batches (p # ps) s) = take 100 (concat (rev (map successes ps)) @ predictions ?s')"
    using Cons.IH [OF len] by simp
  also have "\<dots> = take 100 (concat (rev (map successes ps)) @ take 100 (successes p @ predictions s))"
    by (simp only: commit_predictions_predictions successes_def)
  also have "\<dots> = take 100 (concat (rev (map successes ps)) @ (successes p @ predictions s))"
    by (rule take_append_take)
  finally show ?case by simp
qed

lemma cycle_frame_refl: "cycle_frame s s"
  by (simp add: cycle_frame_def extended_refl)

lemma cycle_frame_trans:
  assumes "cycle_frame s s'" and "cycle_frame s' s''"
  shows "cycle_frame s s''"
proof -
  have "extended 50 (systemErrors s) (systemErrors s'')"
    using assms extended_trans [of 50 "systemErrors s" "systemErrors s'" "systemErrors s''"]
    by (simp add: cycle_frame_def)
  moreover have "extended 100 (predictions s) (predictions s'')"
    using assms extended_trans [of 100 "predictions s" "predictions s'" "predictions s''"]
    by (simp add: cycle_frame_def)
  ultimately show ?thesis using assms by (simp add: cycle_frame_def)
qed

lemma predictionLoop_tasks:
  assumes "cameras s \<noteq> []" and "currentModels s \<noteq> []"
    and "rt = run_tasks env (js_index (currentModels s) (currentModelIndex s)) 0 (cameras s)
                  (s\<lparr> currentModelIndex := (currentModelIndex s + 1) mod length (currentModels s) \<rparr>)"
  shows "snd (predictionLoop env s) =
           (if Unsettled \<in> set (fst rt) then snd rt else commit_predictions (map returned (fst rt)) (snd rt))"
  using assms by (simp add: predictionLoop_def Let_def split_beta)

lemma predictionLoop_skip:
  "cameras s = [] \<or> currentModels s = [] \<Longrightarrow> predictionLoop env s = (Skipped, s)"
  by (auto simp add: predictionLoop_def)

lemma predictionLoop_frame: "cycle_frame s (snd (predictionLoop env s))"
proof (cases "cameras s = [] \<or> currentModels s = []")
  case True
  then show ?thesis using predictionLoop_skip [OF True] by (simp add: cycle_frame_refl)
next
  case False
  let ?s0 = "s\<lparr> currentModelIndex := (currentModelIndex s + 1) mod length (currentModels s) \<rparr>"
  define rt where "rt = run_tasks env (js_index (currentModels s) (currentModelIndex s)) 0 (cameras s) ?s0"
  obtain rs s1 where rt: "rt = (rs, s1)" by (cases rt)
  have res: "snd (predictionLoop env s) = (if Unsettled \<in> set rs then s1 else commit_predictions (map returned rs) s1)"
    using predictionLoop_tasks [of s rt env] False rt rt_def by simp
  have tf: "task_frame ?s0 s1"
    using run_tasks_frame [of ?s0 env "js_index (currentModels s) (currentModelIndex s)" 0 "cameras s"] rt rt_def
    by simp
  have c1: "cycle_frame s s1"
    using tf by (simp add: task_frame_def cycle_frame_def extended_refl)
  have "extended 100 (predictions s1) (predictions (commit_predictions (map returned rs) s1))"
    by (simp only: commit_predictions_predictions extended_take)
  then have c2: "cycle_frame s1 (commit_predictions (map returned rs) s1)"
    by (simp add: cycle_frame_def extended_refl)
  show ?thesis
    using res c1 cycle_frame_trans [OF c1 c2] by simp
qed

lemma run_ticks_frame: "cycle_frame s (run_ticks envs s)"
proof (induction envs arbitrary: s)
  case Nil
  show ?case by (simp add: cycle_frame_refl)
next
  case (Cons env envs)
  show ?case
    using cycle_frame_trans [OF predictionLoop_frame [of s env] Cons [of "snd (predictionLoop env s)"]]
    by simp
qed

text \<open>
  C2. Whatever is inserted, in whatever number: the prediction history is the
  inserted batches, the latest batch first, in front of the old history and cut to
  100; the error history is the inserted entries, the latest first, in front of
  the old history and cut to 50. So only the oldest records are ever dropped, and
  only beyond the cap. The same holds across any run of polling cycles, which are
  the only writers of the two histories.
\<close>

theorem history_capped_newest_first:
  assumes "length (predictions s) \<le> 100" and "length (systemErrors s) \<le> 50"
  shows "predictions (record_batches ps s) = take 100 (concat (rev (map successes ps)) @ predictions s)
       \<and> systemErrors (record_errors es s) = take 50 (rev (map entry_of es) @ systemErrors s)
       \<and> length (predictions (run_ticks envs s)) \<le> 100
       \<and> length (systemErrors (run_ticks envs s)) \<le> 50
       \<and> (\<exists>ins. predictions (run_ticks envs s) = take 100 (ins @ predictions s))
       \<and> (\<exists>ins. systemErrors (run_ticks envs s) = take 50 (ins @ systemErrors s))"
proof -
  have cf: "cycle_frame s (run_ticks envs s)" by (rule run_ticks_frame)
  have p: "length (predictions (run_ticks envs s)) \<le> 100
           \<and> (\<exists>ins. predictions (run_ticks envs s) = take 100 (ins @ predictions s))"
    using cf assms(1) extended_bounded [of 100 "predictions s" "predictions (run_ticks envs s)"]
    by (simp add: cycle_frame_def)
  have e: "length (systemErrors (run_ticks envs s)) \<le> 50
           \<and> (\<exists>ins. systemErrors (run_ticks envs s) = take 50 (ins @ systemErrors s))"
    using cf assms(2) extended_bounded [of 50 "systemErrors s" "systemErrors (run_ticks envs s)"]
    by (simp add: cycle_frame_def)
  show ?thesis
    using p e record_batches_predictions [OF assms(1)] record_errors_errors [OF assms(2)]
    by simp
qed


theorem history_capped_newest_first_witness:
  "length (predictions sample_state) \<le> 100 \<and> length (systemErrors sample_state) \<le> 50
   \<and> systemErrors (record_errors [(0, ''first'', 1), (1, ''second'', 2)] sample_state)
       = take 50 (rev (map entry_of [(0, ''first'', 1), (1, ''second'', 2)]) @ systemErrors sample_state)
   \<and> length (predictions (run_ticks [sample_env_failed, sample_env_ok] sample_state)) \<le> 100
   \<and> length (systemErrors (run_ticks [sample_env_failed, sample_env_ok] sample_state)) \<le> 50"
proof -
  have h1: "length (predictions sample_state) \<le> 100"
    by (simp add: sample_state_def initialize_def initial_state_def)
  have h2: "length (systemErrors sample_state) \<le> 50"
    by (simp add: sample_state_def initialize_def initial_state_def)
  show ?thesis
    using history_capped_newest_first [OF h1 h2, of "[]" "[(0, ''first'', 1), (1, ''second'', 2)]"
        "[sample_env_failed, sample_env_ok]"] h1 h2
    by blast
qed


subsection \<open>The rotation cursor\<close>

lemma predictionLoop_cursor:
  assumes "cameras s \<noteq> []" and "currentModels s \<noteq> []"
  shows "currentModelIndex (snd (predictionLoop env s))
           = (currentModelIndex s + 1) mod length (currentModels s)"
proof -
  let ?s0 = "s\<lparr> currentModelIndex := (currentModelIndex s + 1) mod length (currentModels s) \<rparr>"
  define rt where "rt = run_tasks env (js_index (currentModels s) (currentModelIndex s)) 0 (cameras s) ?s0"
  have res: "snd (predictionLoop env s) =
      (if Unsettled \<in> set (fst rt) then snd rt else commit_predictions (map returned (fst rt)) (snd rt))"
    using predictionLoop_tasks [of s rt env] assms rt_def by simp
  have "task_frame ?s0 (snd rt)"
    unfolding rt_def by (rule run_tasks_frame)
  then have "currentModelIndex (snd rt) = currentModelIndex ?s0"
    by (simp add: task_frame_def)
  then show ?thesis using res by simp
qed

lemma predictionLoop_config:
  "cameras (snd (predictionLoop env s)) = cameras s
   \<and> currentModels (snd (predictionLoop env s)) = currentModels s"
  using predictionLoop_frame [of s env] by (simp add: cycle_frame_def)

lemma cursor_trace_eq:
  assumes "cameras s \<noteq> []" and "currentModels s \<noteq> []"
    and "currentModelIndex s < length (currentModels s)"
  shows "cursor_trace envs s
           = map (\<lambda>k. (currentModelIndex s + k) mod length (currentModels s)) [0..<length envs]"
  using assms
proof (induction envs arbitrary: s)
  case Nil
  show ?case by simp
next
  case (Cons env envs)
  let ?s' = "snd (predictionLoop env s)"
  let ?N = "length (currentModels s)"
  have cfg: "cameras ?s' = cameras s" "currentModels ?s' = currentModels s"
    using predictionLoop_config [of env s] by simp_all
  have cur: "currentModelIndex ?s' = (currentModelIndex s + 1) mod ?N"
    using predictionLoop_cursor [OF Cons.prems(1,2)] .
  have lt: "currentModelIndex ?s' < length (currentModels ?s')"
    using cur cfg Cons.prems(2) by simp
  have ih: "cursor_trace envs ?s'
      = map (\<lambda>k. ((currentModelIndex s + 1) mod ?N + k) mod ?N) [0..<length envs]"
    using Cons.IH [of ?s'] cfg Cons.prems lt cur by simp
  have step: "\<And>k. ((currentModelIndex s + 1) mod ?N + k) mod ?N = (currentModelIndex s + Suc k) mod ?N"
    by (simp add: mod_add_left_eq)
  have "[0..<length (env # envs)] = 0 # map Suc [0..<length envs]"
    by (simp add: upt_conv_Cons map_Suc_upt del: upt_Suc)
  then have "map (\<lambda>k. (currentModelIndex s + k) mod ?N) [0..<length (env # envs)]
      = (currentModelIndex s mod ?N) # map (\<lambda>k. (currentModelIndex s + Suc k) mod ?N) [0..<length envs]"
    by (simp add: comp_def del: upt_Suc)
  then show ?case
    using ih step Cons.prems(3) by (simp del: upt_Suc)
qed

lemma selected_models_eq:
  "selected_models envs s = map (js_index (currentModels s)) (cursor_trace envs s)"
proof (induction envs arbitrary: s)
  case Nil
  show ?case by simp
next
  case (Cons env envs)
  show ?case
    using Cons [of "snd (predictionLoop env s)"] predictionLoop_config [of env s]
    by simp
qed

lemma run_ticks_cursor:
  assumes "cameras s \<noteq> []" and "currentModels s \<noteq> []"
  shows "currentModelIndex (run_ticks envs s)
           = (currentModelIndex s + length envs) mod length (currentModels s)
         \<or> envs = []"
  using assms
proof (induction envs arbitrary: s)
  case Nil
  show ?case by simp
next
  case (Cons env envs)
  let ?s' = "snd (predictionLoop env s)"
  let ?N = "length (currentModels s)"
  have cfg: "cameras ?s' = cameras s" "currentModels ?s' = currentModels s"
    using predictionLoop_config [of env s] by simp_all
  have cur: "currentModelIndex ?s' = (currentModelIndex s + 1) mod ?N"
    using predictionLoop_cursor [OF Cons.prems(1,2)] .
  show ?case
  proof (cases "envs = []")
    case True
    then show ?thesis using cur by simp
  next
    case False
    then have "currentModelIndex (run_ticks envs ?s') = (currentModelIndex ?s' + length envs) mod ?N"
      using Cons.IH [of ?s'] cfg Cons.prems by simp
    then show ?thesis using cur by (simp add: mod_add_left_eq)
  qed
qed

lemma rotate_as_map:
  assumes "i < length xs"
  shows "rotate i xs = map (\<lambda>k. xs ! ((i + k) mod length xs)) [0..<length xs]"
  by (rule nth_equalityI) (simp_all add: nth_rotate add.commute)

lemma ticking_configured:
  assumes "ticking s0 s" and "currentModelIndex s0 < length (currentModels s0)"
  shows "cameras s \<noteq> [] \<and> currentModels s = currentModels s0
         \<and> currentModelIndex s < length (currentModels s)"
  using assms
proof (induction rule: ticking.induct)
  case (started detected s0 s)
  then show ?case
    by (auto simp: initialize_def Let_def split: if_splits)
next
  case (tick s0 s env)
  have ih: "cameras s \<noteq> [] \<and> currentModels s = currentModels s0
         \<and> currentModelIndex s < length (currentModels s)"
    using tick.IH tick.prems by blast
  have c: "cameras s \<noteq> []" and m: "currentModels s = currentModels s0"
    and i: "currentModelIndex s < length (currentModels s)"
    using ih by blast+
  have ne: "currentModels s \<noteq> []" using i by auto
  show ?case
    using predictionLoop_config [of env s] predictionLoop_cursor [OF c ne, of env] c m ne
    by simp
qed

lemma cursor_rotation:
  assumes "cameras s \<noteq> []" and "currentModels s \<noteq> []"
  shows "currentModelIndex (snd (predictionLoop env s))
           = (currentModelIndex s + 1) mod length (currentModels s)
       \<and> (currentModelIndex s < length (currentModels s) \<and> length envs = length (currentModels s) \<longrightarrow>
            cursor_trace envs s = rotate (currentModelIndex s) [0..<length (currentModels s)]
          \<and> distinct (cursor_trace envs s)
          \<and> set (cursor_trace envs s) = {0..<length (currentModels s)}
          \<and> selected_models envs s = map Some (rotate (currentModelIndex s) (currentModels s))
          \<and> currentModelIndex (run_ticks envs s) = currentModelIndex s)
       \<and> (currentModelIndex s = 0 \<and> length envs = length (currentModels s) \<longrightarrow>
            selected_models envs s = map Some (currentModels s))"
proof -
  let ?N = "length (currentModels s)"
  let ?i = "currentModelIndex s"
  have a: "currentModelIndex (snd (predictionLoop env s)) = (?i + 1) mod ?N"
    using predictionLoop_cursor [OF assms] .
  have b: "cursor_trace envs s = rotate ?i [0..<?N] \<and> distinct (cursor_trace envs s)
          \<and> set (cursor_trace envs s) = {0..<?N}
          \<and> selected_models envs s = map Some (rotate ?i (currentModels s))
          \<and> currentModelIndex (run_ticks envs s) = ?i"
    if lt: "?i < ?N" and len: "length envs = ?N"
  proof -
    have ct: "cursor_trace envs s = map (\<lambda>k. (?i + k) mod ?N) [0..<?N]"
      using cursor_trace_eq [OF assms lt, of envs] len by simp
    have r1: "rotate ?i [0..<?N] = map (\<lambda>k. (?i + k) mod ?N) [0..<?N]"
      using rotate_as_map [of ?i "[0..<?N]"] lt assms(2) by simp
    have c1: "cursor_trace envs s = rotate ?i [0..<?N]" using ct r1 by simp
    have c2: "distinct (cursor_trace envs s)" using c1 by simp
    have c3: "set (cursor_trace envs s) = {0..<?N}" using c1 by simp
    have "selected_models envs s = map (js_index (currentModels s)) (map (\<lambda>k. (?i + k) mod ?N) [0..<?N])"
      using selected_models_eq [of envs s] ct by simp
    also have "\<dots> = map (\<lambda>k. Some (currentModels s ! ((?i + k) mod ?N))) [0..<?N]"
      using assms(2) by (simp add: js_index_def comp_def)
    also have "\<dots> = map Some (rotate ?i (currentModels s))"
      using rotate_as_map [OF lt] by (simp add: comp_def)
    finally have c4: "selected_models envs s = map Some (rotate ?i (currentModels s))" .
    have "envs \<noteq> []" using len assms(2) by auto
    then have "currentModelIndex (run_ticks envs s) = (?i + ?N) mod ?N"
      using run_ticks_cursor [OF assms, of envs] len by simp
    then have c5: "currentModelIndex (run_ticks envs s) = ?i" using lt by simp
    show ?thesis using c1 c2 c3 c4 c5 by simp
  qed
  have c: "selected_models envs s = map Some (currentModels s)"
    if z: "?i = 0" and len: "length envs = ?N"
  proof -
    have "?i < ?N" using z assms(2) by simp
    then show ?thesis using b len z by simp
  qed
  show ?thesis using a b c by blast
qed


text \<open>
  C1. Every call of \<^verbatim>\<open>predictionLoop\<close> by the interval timer moves the cursor by one
  position modulo the number of models, whatever the captures and the dispatches
  of that cycle meet (\<open>env\<close> is arbitrary: every outcome, also tasks that never
  settle). The module starts with its cursor inside its model list. So with N
  models, N consecutive ticks start from the cursors \<open>i, i+1, \<dots>\<close> modulo N, each
  position once, select the configured list rotated by the first cursor (the list
  itself from cursor 0), and bring the cursor back.
\<close>

theorem cursor_advances_every_cycle:
  assumes "ticking s0 s" and "currentModelIndex s0 < length (currentModels s0)"
  shows "currentModelIndex (snd (predictionLoop env s))
           = (currentModelIndex s + 1) mod length (currentModels s)
       \<and> (length envs = length (currentModels s) \<longrightarrow>
            cursor_trace envs s = rotate (currentModelIndex s) [0..<length (currentModels s)]
          \<and> distinct (cursor_trace envs s)
          \<and> set (cursor_trace envs s) = {0..<length (currentModels s)}
          \<and> selected_models envs s = map Some (rotate (currentModelIndex s) (currentModels s))
          \<and> currentModelIndex (run_ticks envs s) = currentModelIndex s)
       \<and> (currentModelIndex s = 0 \<and> length envs = length (currentModels s) \<longrightarrow>
            selected_models envs s = map Some (currentModels s))"
proof -
  have cfg: "cameras s \<noteq> [] \<and> currentModels s = currentModels s0
         \<and> currentModelIndex s < length (currentModels s)"
    using ticking_configured [OF assms] .
  then have ne: "currentModels s \<noteq> []" by auto
  show ?thesis
    using cursor_rotation [of s env envs] cfg ne by blast
qed

theorem cursor_advances_every_cycle_witness:
  "ticking initial_state sample_state
   \<and> currentModelIndex initial_state < length (currentModels initial_state)
   \<and> currentModelIndex sample_state = 0
   \<and> length [sample_env_failed, sample_env_ok] = length (currentModels sample_state)
   \<and> currentModelIndex (snd (predictionLoop sample_env_failed sample_state))
       = (currentModelIndex sample_state + 1) mod length (currentModels sample_state)
   \<and> selected_models [sample_env_failed, sample_env_ok] sample_state
       = map Some (currentModels sample_state)
   \<and> currentModelIndex (run_ticks [sample_env_failed, sample_env_ok] sample_state)
       = currentModelIndex sample_state"
proof -
  have "initialize [sample_camera] initial_state = (sample_state, True)"
    by (simp add: sample_state_def initialize_def)
  then have h1: "ticking initial_state sample_state"
    by (rule ticking.started)
  have h2: "currentModelIndex initial_state < length (currentModels initial_state)"
    by (simp add: initial_state_def)
  have h3: "currentModelIndex sample_state = 0"
    by (simp add: sample_state_def initialize_def initial_state_def)
  have h4: "length [sample_env_failed, sample_env_ok] = length (currentModels sample_state)"
    by (simp add: sample_state_def initialize_def initial_state_def)
  show ?thesis
    using cursor_advances_every_cycle [OF h1 h2, of sample_env_failed "[sample_env_failed, sample_env_ok]"]
      h1 h2 h3 h4
    by blast
qed


subsection \<open>The callbacks of a capture\<close>

lemma run_capture_append:
  "run_capture cam (xs @ ys) cs = run_capture cam ys (run_capture cam xs cs)"
proof (induction xs arbitrary: cs)
  case Nil
  show ?case by simp
next
  case (Cons x xs)
  obtain now ev where "x = (now, ev)" by (cases x)
  then show ?case using Cons by simp
qed

lemma settle_fields [simp]:
  "imageBuffer (settle r c) = imageBuffer c"
  "hasData (settle r c) = hasData c"
  "stderrOutput (settle r c) = stderrOutput c"
  "killed (settle r c) = killed c"
  by (simp_all add: settle_def)

lemma settle_settled:
  "settled (settle r c) = (if settled c = None then Some r else settled c)"
  by (simp add: settle_def)

text \<open>The five kinds of callback.\<close>

lemma handler_cases:
  obtains (stdout) d where "ev = Proc (StdoutData d)"
  | (stderr) d where "ev = Proc (StderrData d)"
  | (close) code where "ev = Proc (ProcClose code)"
  | (error) msg where "ev = Proc (ProcError msg)"
  | (timer) "ev = TimerFired"
proof (cases ev)
  case (Proc pe)
  then show ?thesis using that by (cases pe) auto
next
  case TimerFired
  then show ?thesis using that by simp
qed

lemma handler_settled_stable:
  assumes "settled c = Some r"
  shows "settled (fst (capture_handler cam now ev (c, s))) = Some r"
  using assms by (cases ev rule: handler_cases) (simp_all add: settle_settled Let_def)

lemma handler_pending:
  assumes "settled (fst (capture_handler cam now ev (c, s))) = None"
  shows "settled c = None \<and> snd (capture_handler cam now ev (c, s)) = s"
  using assms
  by (cases ev rule: handler_cases) (auto simp: settle_settled Let_def split: if_splits)

lemma run_settled_stable:
  assumes "settled (fst cs) = Some r"
  shows "settled (fst (run_capture cam evs cs)) = Some r"
  using assms
proof (induction evs arbitrary: cs)
  case Nil
  then show ?case by simp
next
  case (Cons e evs)
  obtain now ev where e: "e = (now, ev)" by (cases e)
  obtain c s where cs: "cs = (c, s)" by (cases cs)
  have "settled (fst (capture_handler cam now ev cs)) = Some r"
    using handler_settled_stable [of c r cam now ev s] Cons.prems cs by simp
  then show ?case using Cons.IH e by simp
qed

lemma run_pending:
  assumes "settled (fst (run_capture cam evs (c, s))) = None"
  shows "settled c = None \<and> snd (run_capture cam evs (c, s)) = s"
  using assms
proof (induction evs arbitrary: c s)
  case Nil
  then show ?case by simp
next
  case (Cons e evs)
  obtain now ev where e: "e = (now, ev)" by (cases e)
  obtain c' s' where h: "capture_handler cam now ev (c, s) = (c', s')"
    by (cases "capture_handler cam now ev (c, s)")
  have "settled c' = None \<and> snd (run_capture cam evs (c', s')) = s'"
    using Cons.IH [of c' s'] Cons.prems e h by simp
  moreover have "settled c = None \<and> s' = s"
    using handler_pending [of cam now ev c s] h calculation by simp
  ultimately show ?case using e h by simp
qed

lemma handler_buffers:
  "imageBuffer (fst (capture_handler cam now ev (c, s))) = imageBuffer c @ stdout_bytes [(now, ev)]
   \<and> stderrOutput (fst (capture_handler cam now ev (c, s))) = stderrOutput c @ stderr_text [(now, ev)]"
  by (cases ev rule: handler_cases) (simp_all add: Let_def)

lemma stdout_bytes_Cons: "stdout_bytes (e # evs) = stdout_bytes [e] @ stdout_bytes evs"
  by (cases "(e # evs)" rule: stdout_bytes.cases) simp_all

lemma stderr_text_Cons: "stderr_text (e # evs) = stderr_text [e] @ stderr_text evs"
  by (cases "(e # evs)" rule: stderr_text.cases) simp_all

lemma run_buffers:
  "imageBuffer (fst (run_capture cam evs (c, s))) = imageBuffer c @ stdout_bytes evs
   \<and> stderrOutput (fst (run_capture cam evs (c, s))) = stderrOutput c @ stderr_text evs"
proof (induction evs arbitrary: c s)
  case Nil
  show ?case by simp
next
  case (Cons e evs)
  obtain now ev where e: "e = (now, ev)" by (cases e)
  obtain c' s' where h: "capture_handler cam now ev (c, s) = (c', s')"
    by (cases "capture_handler cam now ev (c, s)")
  have hb: "imageBuffer c' = imageBuffer c @ stdout_bytes [e] \<and> stderrOutput c' = stderrOutput c @ stderr_text [e]"
    using handler_buffers [of cam now ev c s] h e by simp
  show ?case
    using Cons.IH [of c' s'] hb h e stdout_bytes_Cons [of e evs] stderr_text_Cons [of e evs]
    by simp
qed

lemma handler_hasData:
  assumes "hasData c \<or> imageBuffer c = []"
  shows "hasData (fst (capture_handler cam now ev (c, s)))
         \<or> imageBuffer (fst (capture_handler cam now ev (c, s))) = []"
  using assms by (cases ev rule: handler_cases) (auto simp: Let_def)

lemma run_hasData:
  assumes "hasData c \<or> imageBuffer c = []"
  shows "hasData (fst (run_capture cam evs (c, s)))
         \<or> imageBuffer (fst (run_capture cam evs (c, s))) = []"
  using assms
proof (induction evs arbitrary: c s)
  case Nil
  then show ?case by simp
next
  case (Cons e evs)
  obtain now ev where e: "e = (now, ev)" by (cases e)
  obtain c' s' where h: "capture_handler cam now ev (c, s) = (c', s')"
    by (cases "capture_handler cam now ev (c, s)")
  have "hasData c' \<or> imageBuffer c' = []"
    using handler_hasData [OF Cons.prems, of cam now ev s] h by simp
  then show ?case using Cons.IH [of c' s'] h e by simp
qed

text \<open>
  The close callback on a capture that is still pending (\<open>pre\<close>: the callbacks that
  ran before and left the promise unsettled); later callbacks (\<open>post\<close>) do not
  change the outcome.
\<close>

lemma pending_close_outcome:
  assumes "settled (fst (run_capture cam pre (capture_start, s))) = None"
  shows "settled (fst (run_capture cam (pre @ (now, Proc (ProcClose code)) # post) (capture_start, s)))
           = Some (if code = Some 0 \<and> stdout_bytes pre \<noteq> [] then Resolved (stdout_bytes pre)
                   else Rejected (capture_failed_msg cam code (stderr_text pre)))
       \<and> ((\<exists>frame. settled (fst (run_capture cam (pre @ (now, Proc (ProcClose code)) # post) (capture_start, s)))
                       = Some (Resolved frame))
            \<longleftrightarrow> code = Some 0 \<and> stdout_bytes pre \<noteq> [])
       \<and> (code = Some 0 \<and> stdout_bytes pre \<noteq> [] \<longrightarrow>
            snd (run_capture cam (pre @ [(now, Proc (ProcClose code))]) (capture_start, s)) = s)
       \<and> (\<not> (code = Some 0 \<and> stdout_bytes pre \<noteq> []) \<longrightarrow>
            snd (run_capture cam (pre @ [(now, Proc (ProcClose code))]) (capture_start, s))
              = addSystemError (cam_id cam) (capture_failed_msg cam code (stderr_text pre)) now s
          \<and> systemErrors (snd (run_capture cam (pre @ [(now, Proc (ProcClose code))]) (capture_start, s)))
              = take 50 (\<lparr> e_cameraId = cam_id cam,
                            e_error = capture_failed_msg cam code (stderr_text pre),
                            e_timestamp = now \<rparr> # systemErrors s))"
proof -
  obtain c0 s0 where r0: "run_capture cam pre (capture_start, s) = (c0, s0)"
    by (cases "run_capture cam pre (capture_start, s)")
  have pend: "settled c0 = None" using assms r0 by simp
  have s0: "s0 = s" using run_pending [of cam pre capture_start s] assms r0 by simp
  have buf: "imageBuffer c0 = stdout_bytes pre" and err: "stderrOutput c0 = stderr_text pre"
    using run_buffers [of cam pre capture_start s] r0 by (simp_all add: capture_start_def)
  have hd: "hasData c0 \<or> imageBuffer c0 = []"
    using run_hasData [of capture_start cam pre s] r0 by (simp add: capture_start_def)
  let ?ok = "code = Some 0 \<and> stdout_bytes pre \<noteq> []"
  let ?res = "if ?ok then Resolved (stdout_bytes pre)
              else Rejected (capture_failed_msg cam code (stderr_text pre))"
  have cond: "(code = Some 0 \<and> hasData c0 \<and> length (imageBuffer c0) > 0) = ?ok"
    using hd buf by auto
  have step_c: "settled (fst (capture_handler cam now (Proc (ProcClose code)) (c0, s0))) = Some ?res"
    using pend buf err cond by (simp add: settle_settled Let_def)
  have step_s: "snd (capture_handler cam now (Proc (ProcClose code)) (c0, s0))
      = (if ?ok then s else addSystemError (cam_id cam) (capture_failed_msg cam code (stderr_text pre)) now s)"
    using buf err cond s0 by (simp add: Let_def)
  have one: "run_capture cam (pre @ [(now, Proc (ProcClose code))]) (capture_start, s)
      = capture_handler cam now (Proc (ProcClose code)) (c0, s0)"
    by (simp add: run_capture_append r0)
  have "run_capture cam (pre @ (now, Proc (ProcClose code)) # post) (capture_start, s)
      = run_capture cam post (capture_handler cam now (Proc (ProcClose code)) (c0, s0))"
    by (simp add: run_capture_append r0)
  then have final: "settled (fst (run_capture cam (pre @ (now, Proc (ProcClose code)) # post) (capture_start, s)))
      = Some ?res"
    using run_settled_stable [OF step_c, of cam post] by simp
  have iff: "(\<exists>frame. Some ?res = Some (Resolved frame)) \<longleftrightarrow> ?ok" by simp
  show ?thesis
    unfolding final one step_s
    using iff by (simp add: addSystemError_errors)
qed

lemma handler_resolves:
  assumes "settled c = None"
    and "settled (fst (capture_handler cam now ev (c, s))) = Some (Resolved frame)"
  shows "ev = Proc (ProcClose (Some 0)) \<and> frame = imageBuffer c \<and> frame \<noteq> []"
  using assms
  by (cases ev rule: handler_cases) (auto simp: settle_settled Let_def split: if_splits)

lemma resolved_only_by_clean_close:
  assumes "settled (fst (run_capture cam evs (capture_start, s))) = Some (Resolved frame)"
  shows "\<exists>pre t post. evs = pre @ (t, Proc (ProcClose (Some 0))) # post
            \<and> frame = stdout_bytes pre \<and> frame \<noteq> []"
  using assms
proof (induction evs rule: rev_induct)
  case Nil
  then show ?case by (simp add: capture_start_def)
next
  case (snoc e evs)
  obtain now ev where e: "e = (now, ev)" by (cases e)
  obtain c0 s0 where r0: "run_capture cam evs (capture_start, s) = (c0, s0)"
    by (cases "run_capture cam evs (capture_start, s)")
  have last: "run_capture cam (evs @ [e]) (capture_start, s) = capture_handler cam now ev (c0, s0)"
    by (simp add: run_capture_append r0 e)
  show ?case
  proof (cases "settled c0")
    case None
    have res: "settled (fst (capture_handler cam now ev (c0, s0))) = Some (Resolved frame)"
      using snoc.prems unfolding last .
    have "ev = Proc (ProcClose (Some 0)) \<and> frame = imageBuffer c0 \<and> frame \<noteq> []"
      by (rule handler_resolves [OF None res])
    moreover have "imageBuffer c0 = stdout_bytes evs"
      using run_buffers [of cam evs capture_start s] r0 by (simp add: capture_start_def)
    ultimately have "evs @ [e] = evs @ (now, Proc (ProcClose (Some 0))) # []
        \<and> frame = stdout_bytes evs \<and> frame \<noteq> []"
      using e by auto
    then show ?thesis by blast
  next
    case (Some r)
    have "settled (fst (capture_handler cam now ev (c0, s0))) = Some r"
      using handler_settled_stable [OF Some] .
    moreover have "settled (fst (capture_handler cam now ev (c0, s0))) = Some (Resolved frame)"
      using snoc.prems unfolding last .
    ultimately have "settled c0 = Some (Resolved frame)"
      using Some by simp
    then obtain pre t post where "evs = pre @ (t, Proc (ProcClose (Some 0))) # post
        \<and> frame = stdout_bytes pre \<and> frame \<noteq> []"
      using snoc.IH r0 by auto
    then have "evs @ [e] = pre @ (t, Proc (ProcClose (Some 0))) # (post @ [e])
        \<and> frame = stdout_bytes pre \<and> frame \<noteq> []"
      by auto
    then show ?thesis by blast
  qed
qed

lemma close_failure_always_recorded:
  assumes "\<not> (code = Some 0 \<and> stdout_bytes pre \<noteq> [])"
  shows "systemErrors (snd (run_capture cam (pre @ [(now, Proc (ProcClose code))]) (capture_start, s)))
           = take 50 (\<lparr> e_cameraId = cam_id cam,
                         e_error = capture_failed_msg cam code (stderr_text pre),
                         e_timestamp = now \<rparr>
                      # systemErrors (snd (run_capture cam pre (capture_start, s))))"
proof -
  obtain c0 s0 where r0: "run_capture cam pre (capture_start, s) = (c0, s0)"
    by (cases "run_capture cam pre (capture_start, s)")
  have buf: "imageBuffer c0 = stdout_bytes pre" and err: "stderrOutput c0 = stderr_text pre"
    using run_buffers [of cam pre capture_start s] r0 by (simp_all add: capture_start_def)
  have "\<not> (code = Some 0 \<and> hasData c0 \<and> length (imageBuffer c0) > 0)"
    using assms buf by auto
  then have "snd (capture_handler cam now (Proc (ProcClose code)) (c0, s0))
      = addSystemError (cam_id cam) (capture_failed_msg cam code (stderr_text pre)) now s0"
    using err by (auto simp: Let_def)
  then show ?thesis
    by (simp add: run_capture_append r0 addSystemError_errors)
qed

text \<open>
  C3. A capture that is pending when its process closes resolves, with all the
  bytes received on stdout, if the exit code is 0 and at least one byte was
  received, and is rejected with the capture-failed message otherwise. Whatever
  the callbacks, a capture resolves only in this way: by a close with exit code 0,
  with the bytes received until then, at least one. When the process closes with
  another exit code (or none: killed by a signal) or without a byte, the error
  entry of that camera is in front of the error history in the very state in
  which the promise is rejected, before the caller sees the failure; a successful
  close records nothing.
\<close>

theorem capture_close_outcome:
  "(settled (fst (run_capture cam pre (capture_start, s))) = None \<longrightarrow>
      settled (fst (run_capture cam (pre @ (now, Proc (ProcClose code)) # post) (capture_start, s)))
        = Some (if code = Some 0 \<and> stdout_bytes pre \<noteq> [] then Resolved (stdout_bytes pre)
                else Rejected (capture_failed_msg cam code (stderr_text pre))))
   \<and> (settled (fst (run_capture cam evs (capture_start, s))) = Some (Resolved frame) \<longrightarrow>
        (\<exists>pre' t post'. evs = pre' @ (t, Proc (ProcClose (Some 0))) # post'
            \<and> frame = stdout_bytes pre' \<and> frame \<noteq> []))
   \<and> (\<not> (code = Some 0 \<and> stdout_bytes pre \<noteq> []) \<longrightarrow>
        systemErrors (snd (run_capture cam (pre @ [(now, Proc (ProcClose code))]) (capture_start, s)))
          = take 50 (\<lparr> e_cameraId = cam_id cam,
                        e_error = capture_failed_msg cam code (stderr_text pre),
                        e_timestamp = now \<rparr>
                     # systemErrors (snd (run_capture cam pre (capture_start, s)))))
   \<and> (code = Some 0 \<and> stdout_bytes pre \<noteq> [] \<longrightarrow>
        snd (run_capture cam (pre @ [(now, Proc (ProcClose code))]) (capture_start, s))
          = snd (run_capture cam pre (capture_start, s)))"
proof -
  have a: "settled (fst (run_capture cam pre (capture_start, s))) = None \<Longrightarrow>
      settled (fst (run_capture cam (pre @ (now, Proc (ProcClose code)) # post) (capture_start, s)))
        = Some (if code = Some 0 \<and> stdout_bytes pre \<noteq> [] then Resolved (stdout_bytes pre)
                else Rejected (capture_failed_msg cam code (stderr_text pre)))"
    using pending_close_outcome [of cam pre s now code post] by blast
  have b: "settled (fst (run_capture cam evs (capture_start, s))) = Some (Resolved frame) \<Longrightarrow>
        (\<exists>pre' t post'. evs = pre' @ (t, Proc (ProcClose (Some 0))) # post'
            \<and> frame = stdout_bytes pre' \<and> frame \<noteq> [])"
    by (rule resolved_only_by_clean_close)
  have c: "\<not> (code = Some 0 \<and> stdout_bytes pre \<noteq> []) \<Longrightarrow>
        systemErrors (snd (run_capture cam (pre @ [(now, Proc (ProcClose code))]) (capture_start, s)))
          = take 50 (\<lparr> e_cameraId = cam_id cam,
                        e_error = capture_failed_msg cam code (stderr_text pre),
                        e_timestamp = now \<rparr>
                     # systemErrors (snd (run_capture cam pre (capture_start, s))))"
    by (rule close_failure_always_recorded)
  have d: "code = Some 0 \<and> stdout_bytes pre \<noteq> [] \<Longrightarrow>
        snd (run_capture cam (pre @ [(now, Proc (ProcClose code))]) (capture_start, s))
          = snd (run_capture cam pre (capture_start, s))"
  proof -
    assume ok: "code = Some 0 \<and> stdout_bytes pre \<noteq> []"
    obtain c0 s0 where r0: "run_capture cam pre (capture_start, s) = (c0, s0)"
      by (cases "run_capture cam pre (capture_start, s)")
    have buf: "imageBuffer c0 = stdout_bytes pre"
      using run_buffers [of cam pre capture_start s] r0 by (simp add: capture_start_def)
    have "hasData c0 \<or> imageBuffer c0 = []"
      using run_hasData [of capture_start cam pre s] r0 by (simp add: capture_start_def)
    then have "hasData c0 \<and> imageBuffer c0 \<noteq> []" using ok buf by auto
    then show ?thesis using ok by (simp add: run_capture_append r0)
  qed
  show ?thesis using a b c d by blast
qed

theorem capture_close_outcome_witness:
  "settled (fst (run_capture sample_camera [(100, Proc (StdoutData [0xFF, 0xD8]))]
                   (capture_start, sample_state))) = None
   \<and> settled (fst (run_capture sample_camera
                     ([(100, Proc (StdoutData [0xFF, 0xD8]))] @ (120, Proc (ProcClose (Some 0))) # [])
                     (capture_start, sample_state)))
       = Some (Resolved [0xFF, 0xD8])
   \<and> snd (run_capture sample_camera
             ([(100, Proc (StdoutData [0xFF, 0xD8]))] @ [(120, Proc (ProcClose (Some 0)))])
             (capture_start, sample_state))
       = sample_state
   \<and> settled (fst (run_capture sample_camera ([] @ (100, Proc (ProcClose (Some 1))) # [])
                     (capture_start, sample_state)))
       = Some (Rejected (capture_failed_msg sample_camera (Some 1) []))
   \<and> map e_cameraId (systemErrors (snd (run_capture sample_camera
                                          ([] @ [(100, Proc (ProcClose (Some 1)))])
                                          (capture_start, sample_state))))
       = [0]"
proof -
  have h1: "settled (fst (run_capture sample_camera [(100, Proc (StdoutData [0xFF, 0xD8]))]
                   (capture_start, sample_state))) = None"
    by (simp add: capture_start_def)
  have h2: "settled (fst (run_capture sample_camera [] (capture_start, sample_state))) = None"
    by (simp add: capture_start_def)
  have h3: "stdout_bytes [(100, Proc (StdoutData [0xFF, 0xD8]))] = [0xFF, 0xD8]" by simp
  have h4: "snd (run_capture sample_camera [(100, Proc (StdoutData [0xFF, 0xD8]))]
                   (capture_start, sample_state)) = sample_state"
    by simp
  have h5: "systemErrors (snd (run_capture sample_camera [] (capture_start, sample_state))) = []"
    by simp
  have h6: "stdout_bytes [] = ([] :: buffer)" "stderr_text [] = []" by simp_all
  have A: "settled (fst (run_capture sample_camera
                     ([(100, Proc (StdoutData [0xFF, 0xD8]))] @ (120, Proc (ProcClose (Some 0))) # [])
                     (capture_start, sample_state)))
       = Some (Resolved [0xFF, 0xD8])
     \<and> snd (run_capture sample_camera
             ([(100, Proc (StdoutData [0xFF, 0xD8]))] @ [(120, Proc (ProcClose (Some 0)))])
             (capture_start, sample_state))
       = sample_state"
    using capture_close_outcome [of sample_camera "[(100, Proc (StdoutData [0xFF, 0xD8]))]"
        sample_state 120 "Some 0" "[]" "[]" "[]"] h1
    unfolding h3 h4 by simp
  have B: "settled (fst (run_capture sample_camera ([] @ (100, Proc (ProcClose (Some 1))) # [])
                     (capture_start, sample_state)))
       = Some (Rejected (capture_failed_msg sample_camera (Some 1) []))
     \<and> map e_cameraId (systemErrors (snd (run_capture sample_camera
                                          ([] @ [(100, Proc (ProcClose (Some 1)))])
                                          (capture_start, sample_state))))
       = [0]"
    using capture_close_outcome [of sample_camera "[]" sample_state 100 "Some 1" "[]" "[]" "[]"] h2
    unfolding h5 h6 by simp
  show ?thesis using h1 A B by blast
qed


subsection \<open>The capture timeout\<close>

lemma schedule_split:
  "schedule fire pevs
     = map lift_proc (takeWhile (\<lambda>(t, ev). t < fire) pevs)
       @ (fire, TimerFired) # map lift_proc (dropWhile (\<lambda>(t, ev). t < fire) pevs)"
proof (induction pevs)
  case Nil
  show ?case by simp
next
  case (Cons e pevs)
  obtain t ev where e: "e = (t, ev)" by (cases e)
  have lift: "(\<lambda>(t', ev'). (t', Proc ev')) = lift_proc"
    by (auto simp: lift_proc_def fun_eq_iff)
  show ?case
  proof (cases "t < fire")
    case True
    then show ?thesis using Cons e by (simp add: lift_proc_def)
  next
    case False
    then show ?thesis using e lift by (simp add: lift_proc_def)
  qed
qed

lemma timeout_msg_distinct [simp]:
  "capture_failed_msg cam code err \<noteq> capture_timeout_msg cam'"
  "ffmpeg_error_msg cam msg \<noteq> capture_timeout_msg cam'"
  by (simp_all add: capture_failed_msg_def ffmpeg_error_msg_def capture_timeout_msg_def)

lemma proc_handler_facts:
  "killed (fst (capture_handler cam now (Proc pe) (c, s))) = killed c
   \<and> hasData (fst (capture_handler cam now (Proc pe) (c, s))) = (hasData c \<or> is_stdout pe)
   \<and> (proc_inv cam c \<longrightarrow> proc_inv cam (fst (capture_handler cam now (Proc pe) (c, s))))
   \<and> (is_stderr pe \<longrightarrow> settled (fst (capture_handler cam now (Proc pe) (c, s))) = settled c)"
  by (cases pe) (auto simp: proc_inv_def settle_settled Let_def)

lemma run_procs_facts:
  "killed (fst (run_capture cam (map lift_proc xs) (c, s))) = killed c
   \<and> hasData (fst (run_capture cam (map lift_proc xs) (c, s))) = (hasData c \<or> (\<exists>e\<in>set (map snd xs). is_stdout e))
   \<and> (proc_inv cam c \<longrightarrow> proc_inv cam (fst (run_capture cam (map lift_proc xs) (c, s))))
   \<and> ((\<forall>e\<in>set (map snd xs). is_stderr e) \<longrightarrow>
        settled (fst (run_capture cam (map lift_proc xs) (c, s))) = settled c)"
proof (induction xs arbitrary: c s)
  case Nil
  show ?case by simp
next
  case (Cons x xs)
  obtain c' s' where h: "capture_handler cam (fst x) (Proc (snd x)) (c, s) = (c', s')"
    by (cases "capture_handler cam (fst x) (Proc (snd x)) (c, s)")
  have step: "run_capture cam (map lift_proc (x # xs)) (c, s) = run_capture cam (map lift_proc xs) (c', s')"
    using h by (simp add: lift_proc_def)
  have hf: "killed c' = killed c \<and> hasData c' = (hasData c \<or> is_stdout (snd x))
      \<and> (proc_inv cam c \<longrightarrow> proc_inv cam c')
      \<and> (is_stderr (snd x) \<longrightarrow> settled c' = settled c)"
    using proc_handler_facts [of cam "fst x" "snd x" c s] h by simp
  show ?case
    unfolding step using Cons [of c' s'] hf by auto
qed

lemma takeWhile_weaker:
  assumes "\<And>x. P x \<Longrightarrow> Q x"
  shows "set (takeWhile P xs) \<subseteq> set (takeWhile Q xs)"
proof (induction xs)
  case Nil
  show ?case by simp
next
  case (Cons x xs)
  then show ?case using assms by auto
qed

lemma handled_before_mono:
  assumes "d \<le> d'"
  shows "set (handled_before d pevs) \<subseteq> set (handled_before d' pevs)"
proof -
  have "set (takeWhile (\<lambda>(t, ev). t < d) pevs) \<subseteq> set (takeWhile (\<lambda>(t, ev). t < d') pevs)"
    using assms by (intro takeWhile_weaker) auto
  then show ?thesis by (auto simp: handled_before_def)
qed

lemma timer_facts:
  "capture_handler cam now TimerFired (c, s) = (c', s') \<Longrightarrow>
     (hasData c \<longrightarrow> c' = c)
     \<and> (\<not> hasData c \<longrightarrow> killed c' \<and> \<not> hasData c'
           \<and> settled c' = (if settled c = None then Some (Rejected (capture_timeout_msg cam)) else settled c))"
  by (auto simp: settle_settled Let_def)

text \<open>
  What the timer callback does to a capture, in all cases. With no output handled
  before it, it kills the process (also one that has exited) and the capture has
  failed: with the timeout message when it was still waiting, otherwise with the
  failure of the close or error callback that rejected it earlier.
\<close>

lemma capture_timer_facts:
  fixes cam start lag pevs s
  defines "fire \<equiv> start + capture_timeout_ms + int lag"
  defines "c \<equiv> fst (captureFrame cam start lag pevs s)"
  shows "((\<forall>e\<in>set (handled_before fire pevs). \<not> is_stdout e) \<longrightarrow>
            killed c \<and> (\<exists>m. settled c = Some (Rejected m)))
       \<and> ((\<forall>e\<in>set (handled_before fire pevs). is_stderr e) \<longrightarrow>
            killed c \<and> settled c = Some (Rejected (capture_timeout_msg cam)))
       \<and> (killed c \<or> settled c = Some (Rejected (capture_timeout_msg cam)) \<longrightarrow>
            (\<forall>e\<in>set (handled_before (start + 10000) pevs). \<not> is_stdout e))
       \<and> (settled c = Some (Rejected (capture_timeout_msg cam)) \<longrightarrow> killed c)"
proof -
  let ?E = "takeWhile (\<lambda>(t, ev). t < fire) pevs"
  let ?L = "dropWhile (\<lambda>(t, ev). t < fire) pevs"
  obtain c1 s1 where r1: "run_capture cam (map lift_proc ?E) (capture_start, s) = (c1, s1)"
    by (cases "run_capture cam (map lift_proc ?E) (capture_start, s)")
  obtain c2 s2 where r2: "capture_handler cam fire TimerFired (c1, s1) = (c2, s2)"
    by (cases "capture_handler cam fire TimerFired (c1, s1)")
  have "run_capture cam (schedule fire pevs) (capture_start, s)
      = run_capture cam (map lift_proc ?L)
          (capture_handler cam fire TimerFired (run_capture cam (map lift_proc ?E) (capture_start, s)))"
    by (simp only: schedule_split run_capture_append run_capture.simps)
  then have c_def': "c = fst (run_capture cam (map lift_proc ?L) (c2, s2))"
    unfolding c_def captureFrame_def fire_def [symmetric]
    by (simp only: r1 r2)
  have E: "map snd ?E = handled_before fire pevs" by (simp add: handled_before_def)
  have inv0: "proc_inv cam capture_start" by (simp add: proc_inv_def capture_start_def)
  have f1: "killed c1 = False" "hasData c1 = (\<exists>e\<in>set (handled_before fire pevs). is_stdout e)"
    "proc_inv cam c1"
    "(\<forall>e\<in>set (handled_before fire pevs). is_stderr e) \<longrightarrow> settled c1 = None"
    using run_procs_facts [of cam ?E capture_start s] r1 inv0 E
    by (simp_all add: capture_start_def)
  have t: "(hasData c1 \<longrightarrow> c2 = c1)
     \<and> (\<not> hasData c1 \<longrightarrow> killed c2 \<and> \<not> hasData c2
           \<and> settled c2 = (if settled c1 = None then Some (Rejected (capture_timeout_msg cam)) else settled c1))"
    using timer_facts [OF r2] .
  have f3: "killed c = killed c2" "proc_inv cam c2 \<longrightarrow> proc_inv cam c"
    using run_procs_facts [of cam ?L c2 s2] c_def' by simp_all
  have stable: "\<And>r. settled c2 = Some r \<Longrightarrow> settled c = Some r"
    using run_settled_stable [of "(c2, s2)" _ cam "map lift_proc ?L"] c_def' by simp
  have rej1: "\<not> hasData c1 \<Longrightarrow> settled c1 \<noteq> None \<Longrightarrow> \<exists>m. settled c1 = Some (Rejected m)"
  proof -
    assume nd: "\<not> hasData c1" and ns: "settled c1 \<noteq> None"
    then obtain r where r: "settled c1 = Some r" by auto
    show ?thesis
    proof (cases r)
      case (Resolved b)
      then show ?thesis using f1(3) r nd by (simp add: proc_inv_def)
    next
      case (Rejected m)
      then show ?thesis using r by simp
    qed
  qed
  have A: "killed c \<and> (\<exists>m. settled c = Some (Rejected m))"
    if "\<forall>e\<in>set (handled_before fire pevs). \<not> is_stdout e"
  proof -
    have nd: "\<not> hasData c1" using that f1(2) by simp
    then have k: "killed c" using t f3(1) by simp
    have "\<exists>m. settled c2 = Some (Rejected m)"
      using t nd rej1 by (cases "settled c1 = None") auto
    then show ?thesis using k stable by auto
  qed
  have B: "killed c \<and> settled c = Some (Rejected (capture_timeout_msg cam))"
    if all: "\<forall>e\<in>set (handled_before fire pevs). is_stderr e"
  proof -
    have "\<And>e. is_stderr e \<Longrightarrow> \<not> is_stdout e" by (case_tac e) simp_all
    then have nd: "\<not> hasData c1" using all f1(2) by auto
    have "settled c1 = None" using all f1(4) by simp
    then have "settled c2 = Some (Rejected (capture_timeout_msg cam))" and "killed c2"
      using t nd by simp_all
    then show ?thesis using stable f3(1) by simp
  qed
  have data: "\<not> killed c \<and> settled c \<noteq> Some (Rejected (capture_timeout_msg cam))"
    if hd: "hasData c1"
  proof -
    have "c2 = c1" using t hd by simp
    then show ?thesis using f1(1,3) f3 by (simp add: proc_inv_def)
  qed
  have C: "\<forall>e\<in>set (handled_before (start + 10000) pevs). \<not> is_stdout e"
    if "killed c \<or> settled c = Some (Rejected (capture_timeout_msg cam))"
  proof -
    have "\<not> hasData c1" using that data by auto
    then have no: "\<forall>e\<in>set (handled_before fire pevs). \<not> is_stdout e" using f1(2) by simp
    have "start + 10000 \<le> fire" by (simp add: fire_def capture_timeout_ms_def)
    then show ?thesis using handled_before_mono [of "start + 10000" fire pevs] no by auto
  qed
  have D: "killed c" if "settled c = Some (Rejected (capture_timeout_msg cam))"
  proof -
    have "\<not> hasData c1" using that data by auto
    then show ?thesis using t f3(1) by simp
  qed
  show ?thesis using A B C D by blast
qed


text \<open>
  C4. The timer callback of a capture runs \<open>lag\<close> milliseconds after the 10 seconds
  it was registered with. When the capture is still waiting then and has received
  no output (only diagnostics were handled before the timer), the callback kills
  the process and the capture fails with the timeout message. The timer is never
  early: the process is killed, or the capture rejected with the timeout message,
  only if no output byte was handled in the first 10 seconds after the start; and
  a capture that failed with the timeout message has killed the process.
\<close>

theorem capture_timeout:
  "((\<forall>e\<in>set (handled_before (start + capture_timeout_ms + int lag) pevs). is_stderr e) \<longrightarrow>
       killed (fst (captureFrame cam start lag pevs s))
       \<and> settled (fst (captureFrame cam start lag pevs s)) = Some (Rejected (capture_timeout_msg cam)))
   \<and> (killed (fst (captureFrame cam start lag pevs s))
        \<or> settled (fst (captureFrame cam start lag pevs s)) = Some (Rejected (capture_timeout_msg cam)) \<longrightarrow>
          (\<forall>e\<in>set (handled_before (start + 10000) pevs). \<not> is_stdout e))
   \<and> (settled (fst (captureFrame cam start lag pevs s)) = Some (Rejected (capture_timeout_msg cam)) \<longrightarrow>
          killed (fst (captureFrame cam start lag pevs s)))"
  using capture_timer_facts [of start lag pevs cam s] by blast

theorem capture_timeout_witness:
  "handled_before (0 + capture_timeout_ms + int 3)
      [(200, StderrData ''Connecting''), (10050, ProcClose None)] = [StderrData ''Connecting'']
   \<and> killed (fst (captureFrame sample_camera 0 3
                    [(200, StderrData ''Connecting''), (10050, ProcClose None)] sample_state))
   \<and> settled (fst (captureFrame sample_camera 0 3
                    [(200, StderrData ''Connecting''), (10050, ProcClose None)] sample_state))
       = Some (Rejected (capture_timeout_msg sample_camera))
   \<and> handled_before (0 + 10000)
        [(200, StderrData ''Connecting''), (10050, ProcClose None)] = [StderrData ''Connecting'']"
proof -
  have h1: "handled_before (0 + capture_timeout_ms + int 3)
      [(200, StderrData ''Connecting''), (10050, ProcClose None)] = [StderrData ''Connecting'']"
    by (simp add: handled_before_def capture_timeout_ms_def)
  have h2: "handled_before (0 + 10000)
      [(200, StderrData ''Connecting''), (10050, ProcClose None)] = [StderrData ''Connecting'']"
    by (simp add: handled_before_def)
  have h3: "\<forall>e\<in>set (handled_before (0 + capture_timeout_ms + int 3)
      [(200, StderrData ''Connecting''), (10050, ProcClose None)]). is_stderr e"
    unfolding h1 by simp
  show ?thesis
    using capture_timeout [of 0 3 "[(200, StderrData ''Connecting''), (10050, ProcClose None)]"
        sample_camera sample_state] h1 h2 h3
    by blast
qed

subsection \<open>Failed dispatches\<close>

lemma sendPrediction_errors:
  "systemErrors (snd (sendPrediction cam frame model now outcome s)) = systemErrors s"
  by (simp add: sendPrediction_def sendPrediction_try_def Let_def
           split: fetch_outcome.split option.split sum.split)

text \<open>
  C5. For every camera, frame and model: when \<^verbatim>\<open>fetch\<close> rejects, or the status is
  not a success, or the parsed response carries an error, the body of
  \<^verbatim>\<open>sendPrediction\<close> throws, the \<^verbatim>\<open>catch\<close> turns the throw into the value \<^verbatim>\<open>null\<close>, and
  the state is the one before the call: no error entry, no latest frame.
\<close>

theorem dispatch_failure_yields_nothing:
  assumes "dispatch_failure outcome"
  shows "sendPrediction cam frame model now outcome s = (None, s)
       \<and> (\<exists>e. sendPrediction_try cam frame model now outcome s = Inl e)
       \<and> systemErrors (snd (sendPrediction cam frame model now outcome s)) = systemErrors s"
proof (cases outcome)
  case (FetchRejected e)
  then show ?thesis by (simp add: sendPrediction_def sendPrediction_try_def)
next
  case (FetchResponse ok status body)
  show ?thesis
  proof (cases ok)
    case False
    then show ?thesis using FetchResponse by (simp add: sendPrediction_def sendPrediction_try_def)
  next
    case True
    then obtain result where b: "body = Some result" and ef: "error_field_set result"
      using assms FetchResponse by (cases body) simp_all
    obtain err where g: "get_error result = Inr err" and t: "truthy err"
      using ef by (cases "get_error result") (simp_all add: error_field_set_def)
    show ?thesis
      using FetchResponse True b g t by (simp add: sendPrediction_def sendPrediction_try_def)
  qed
qed

theorem dispatch_failure_yields_nothing_witness:
  "dispatch_failure (FetchResponse True 200 (Some (JObj [(''error'', JStr ''unknown model'')])))
   \<and> sendPrediction sample_camera [0xFF, 0xD8] (Some ''lettuce-diseases'') 300
        (FetchResponse True 200 (Some (JObj [(''error'', JStr ''unknown model'')]))) sample_state
       = (None, sample_state)"
proof -
  have h: "dispatch_failure (FetchResponse True 200 (Some (JObj [(''error'', JStr ''unknown model'')])))"
    by (simp add: error_field_set_def)
  show ?thesis
    using dispatch_failure_yields_nothing [OF h, of sample_camera "[0xFF, 0xD8]"
        "Some ''lettuce-diseases''" 300 sample_state] h
    by blast
qed

text \<open>
  The error field counts by its truthiness: a response whose \<^verbatim>\<open>error\<close> is \<^verbatim>\<open>null\<close>, false,
  0 or the empty string is a success and yields a prediction.
\<close>

lemma falsy_error_field_is_success:
  assumes "v \<in> {JNull, JBool False, JNum 0, JStr []}"
  shows "\<not> dispatch_failure (FetchResponse True 200 (Some (JObj [(''error'', v)])))
       \<and> fst (sendPrediction cam frame model now
                 (FetchResponse True 200 (Some (JObj [(''error'', v)]))) s) \<noteq> None"
  using assms
  by (auto simp: error_field_set_def sendPrediction_def sendPrediction_try_def Let_def)


subsection \<open>The latest prediction of each camera\<close>

lemma map_of_obj_set: "map_of (obj_set k v kvs) = (map_of kvs)(k \<mapsto> v)"
  by (induction kvs) (auto simp: fun_eq_iff)

lemma set_obj_set: "set (map fst (obj_set k v kvs)) = insert k (set (map fst kvs))"
proof (induction kvs)
  case Nil
  show ?case by simp
next
  case (Cons a kvs)
  obtain k' v' where a: "a = (k', v')" by (cases a)
  show ?case using Cons a by (cases "k < k'"; cases "k = k'") auto
qed

lemma sorted_obj_set:
  "sorted (map fst kvs) \<Longrightarrow> distinct (map fst kvs)
     \<Longrightarrow> sorted (map fst (obj_set k v kvs)) \<and> distinct (map fst (obj_set k v kvs))"
proof (induction kvs)
  case Nil
  show ?case by simp
next
  case (Cons a kvs)
  obtain k' v' where a: "a = (k', v')" by (cases a)
  have ih: "sorted (map fst (obj_set k v kvs)) \<and> distinct (map fst (obj_set k v kvs))"
    using Cons by simp
  have keys: "set (map fst (obj_set k v kvs)) = insert k (set (map fst kvs))"
    by (rule set_obj_set)
  show ?case
  proof (cases "k < k'")
    case True
    then show ?thesis using Cons.prems a by auto
  next
    case False
    show ?thesis
    proof (cases "k = k'")
      case True
      then show ?thesis using Cons.prems a by simp
    next
      case nk: False
      then have "k' < k" using False by simp
      then show ?thesis using Cons.prems a ih keys False nk by auto
    qed
  qed
qed

lemma latest_inv_step:
  assumes "latest_inv ps obj"
  shows "latest_inv (ps @ [p]) (latest_step obj p)"
proof -
  have srt: "sorted (map fst obj)" "distinct (map fst obj)"
    using assms by (simp_all add: latest_inv_def)
  have old: "\<And>c. case map_of obj c of
            None \<Rightarrow> c \<notin> p_cameraId ` set ps
          | Some p \<Rightarrow> p \<in> set ps \<and> p_cameraId p = c
                      \<and> (\<forall>q\<in>set ps. p_cameraId q = c \<longrightarrow> p_timestamp q \<le> p_timestamp p)"
    using assms by (simp add: latest_inv_def)
  let ?k = "p_cameraId p"
  show ?thesis
  proof (cases "map_of obj ?k")
    case None
    then have ls: "latest_step obj p = obj_set ?k p obj" by (simp add: latest_step_def)
    have "?k \<notin> p_cameraId ` set ps" using old [of ?k] None by simp
    then have fresh: "\<forall>q\<in>set ps. p_cameraId q \<noteq> ?k"
      by (metis imageI)
    have "\<And>c. case map_of (obj_set ?k p obj) c of
            None \<Rightarrow> c \<notin> p_cameraId ` set (ps @ [p])
          | Some r \<Rightarrow> r \<in> set (ps @ [p]) \<and> p_cameraId r = c
                      \<and> (\<forall>q\<in>set (ps @ [p]). p_cameraId q = c \<longrightarrow> p_timestamp q \<le> p_timestamp r)"
    proof -
      fix c
      show "case map_of (obj_set ?k p obj) c of
            None \<Rightarrow> c \<notin> p_cameraId ` set (ps @ [p])
          | Some r \<Rightarrow> r \<in> set (ps @ [p]) \<and> p_cameraId r = c
                      \<and> (\<forall>q\<in>set (ps @ [p]). p_cameraId q = c \<longrightarrow> p_timestamp q \<le> p_timestamp r)"
      proof (cases "c = ?k")
        case True
        then show ?thesis using fresh by (auto simp: map_of_obj_set)
      next
        case False
        then show ?thesis using old [of c]
          by (auto simp: map_of_obj_set split: option.splits)
      qed
    qed
    then show ?thesis
      using ls sorted_obj_set [OF srt, of ?k p] by (simp add: latest_inv_def)
  next
    case (Some q)
    have qf: "q \<in> set ps \<and> p_cameraId q = ?k
        \<and> (\<forall>r\<in>set ps. p_cameraId r = ?k \<longrightarrow> p_timestamp r \<le> p_timestamp q)"
      using old [of ?k] Some by simp
    show ?thesis
    proof (cases "p_timestamp p > p_timestamp q")
      case True
      then have ls: "latest_step obj p = obj_set ?k p obj" using Some by (simp add: latest_step_def)
      have "\<And>c. case map_of (obj_set ?k p obj) c of
            None \<Rightarrow> c \<notin> p_cameraId ` set (ps @ [p])
          | Some r \<Rightarrow> r \<in> set (ps @ [p]) \<and> p_cameraId r = c
                      \<and> (\<forall>q\<in>set (ps @ [p]). p_cameraId q = c \<longrightarrow> p_timestamp q \<le> p_timestamp r)"
      proof -
        fix c
        show "case map_of (obj_set ?k p obj) c of
            None \<Rightarrow> c \<notin> p_cameraId ` set (ps @ [p])
          | Some r \<Rightarrow> r \<in> set (ps @ [p]) \<and> p_cameraId r = c
                      \<and> (\<forall>q\<in>set (ps @ [p]). p_cameraId q = c \<longrightarrow> p_timestamp q \<le> p_timestamp r)"
        proof (cases "c = ?k")
          case True
          then show ?thesis using qf \<open>p_timestamp p > p_timestamp q\<close>
            by (fastforce simp: map_of_obj_set)
        next
          case False
          then show ?thesis using old [of c]
            by (auto simp: map_of_obj_set split: option.splits)
        qed
      qed
      then show ?thesis
        using ls sorted_obj_set [OF srt, of ?k p] by (simp add: latest_inv_def)
    next
      case False
      then have ls: "latest_step obj p = obj" using Some by (simp add: latest_step_def)
      have "\<And>c. case map_of obj c of
            None \<Rightarrow> c \<notin> p_cameraId ` set (ps @ [p])
          | Some r \<Rightarrow> r \<in> set (ps @ [p]) \<and> p_cameraId r = c
                      \<and> (\<forall>q\<in>set (ps @ [p]). p_cameraId q = c \<longrightarrow> p_timestamp q \<le> p_timestamp r)"
      proof -
        fix c
        show "case map_of obj c of
            None \<Rightarrow> c \<notin> p_cameraId ` set (ps @ [p])
          | Some r \<Rightarrow> r \<in> set (ps @ [p]) \<and> p_cameraId r = c
                      \<and> (\<forall>q\<in>set (ps @ [p]). p_cameraId q = c \<longrightarrow> p_timestamp q \<le> p_timestamp r)"
        proof (cases "c = ?k")
          case True
          then show ?thesis using qf Some False by auto
        next
          case False
          then show ?thesis using old [of c]
            by (auto split: option.splits)
        qed
      qed
      then show ?thesis using ls srt by (simp add: latest_inv_def)
    qed
  qed
qed

lemma latest_inv_all: "latest_inv ps (latestByCamera ps)"
proof (induction ps rule: rev_induct)
  case Nil
  show ?case by (simp add: latest_inv_def latestByCamera_def)
next
  case (snoc p ps)
  then show ?case
    using latest_inv_step [of ps "latestByCamera ps" p] by (simp add: latestByCamera_def)
qed

text \<open>
  C9. For every prediction history, the object that \<^verbatim>\<open>/api/predictions/latest\<close>
  builds has a key for a camera exactly when the history has a record of that
  camera, and holds under it a record of that camera from the history whose
  timestamp no record of that camera exceeds. The response lists these records,
  one for each camera, by ascending camera id. From the records (camera 0, time
  10), (camera 0, time 20), (camera 1, time 5) it keeps (camera 0, time 20) and
  (camera 1, time 5).
\<close>

theorem latest_per_camera:
  "(c \<notin> p_cameraId ` set (predictions s) \<longrightarrow> map_of (latestByCamera (predictions s)) c = None)
   \<and> (c \<in> p_cameraId ` set (predictions s) \<longrightarrow>
        (\<exists>p. map_of (latestByCamera (predictions s)) c = Some p
             \<and> p \<in> set (predictions s) \<and> p_cameraId p = c
             \<and> (\<forall>q\<in>set (predictions s). p_cameraId q = c \<longrightarrow> p_timestamp q \<le> p_timestamp p)))
   \<and> sorted (map fst (latestByCamera (predictions s)))
   \<and> distinct (map fst (latestByCamera (predictions s)))
   \<and> api_predictions_latest s = map snd (latestByCamera (predictions s))"
proof -
  let ?obj = "latestByCamera (predictions s)"
  have inv: "latest_inv (predictions s) ?obj" by (rule latest_inv_all)
  then have each: "case map_of ?obj c of
            None \<Rightarrow> c \<notin> p_cameraId ` set (predictions s)
          | Some p \<Rightarrow> p \<in> set (predictions s) \<and> p_cameraId p = c
                      \<and> (\<forall>q\<in>set (predictions s). p_cameraId q = c \<longrightarrow> p_timestamp q \<le> p_timestamp p)"
    by (simp add: latest_inv_def)
  have a: "c \<notin> p_cameraId ` set (predictions s) \<longrightarrow> map_of ?obj c = None"
    using each by (cases "map_of ?obj c") auto
  have b: "c \<in> p_cameraId ` set (predictions s) \<longrightarrow>
        (\<exists>p. map_of ?obj c = Some p
             \<and> p \<in> set (predictions s) \<and> p_cameraId p = c
             \<and> (\<forall>q\<in>set (predictions s). p_cameraId q = c \<longrightarrow> p_timestamp q \<le> p_timestamp p))"
    using each by (cases "map_of ?obj c") auto
  show ?thesis using a b inv by (simp add: latest_inv_def api_predictions_latest_def)
qed

theorem latest_per_camera_witness:
  "0 \<in> p_cameraId ` set (predictions sample_history)
   \<and> 2 \<notin> p_cameraId ` set (predictions sample_history)
   \<and> map_of (latestByCamera (predictions sample_history)) 0 = Some (sample_prediction 0 20)
   \<and> map_of (latestByCamera (predictions sample_history)) 1 = Some (sample_prediction 1 5)
   \<and> map_of (latestByCamera (predictions sample_history)) 2 = None
   \<and> api_predictions_latest sample_history = [sample_prediction 0 20, sample_prediction 1 5]"
proof -
  have ps: "predictions sample_history
      = [sample_prediction 0 10, sample_prediction 0 20, sample_prediction 1 5]"
    by (simp add: sample_history_def)
  have l: "latestByCamera (predictions sample_history)
      = [(0, sample_prediction 0 20), (1, sample_prediction 1 5)]"
    unfolding ps by (simp add: latestByCamera_def latest_step_def sample_prediction_def)
  have h1: "0 \<in> p_cameraId ` set (predictions sample_history)"
    unfolding ps by (simp add: sample_prediction_def)
  have h2: "2 \<notin> p_cameraId ` set (predictions sample_history)"
    unfolding ps by (simp add: sample_prediction_def)
  have "map_of (latestByCamera (predictions sample_history)) 2 = None"
    using latest_per_camera [of 2 sample_history] h2 by blast
  moreover have "api_predictions_latest sample_history = [sample_prediction 0 20, sample_prediction 1 5]"
    using latest_per_camera [of 0 sample_history] l by simp
  ultimately show ?thesis using h1 h2 l by simp
qed

subsection \<open>Error entries of a failed capture\<close>
















subsection \<open>Camera discovery\<close>

lemma linux_probe_settles:
  "linux_probe evs out (Fulfilled x) = Fulfilled x"
  by (induction evs out "Fulfilled x :: camera list promise" rule: linux_probe.induct)
     (simp_all add: resolve_def)

lemma linux_probe_not_uncaught: "r \<noteq> Uncaught e \<Longrightarrow> linux_probe evs out r \<noteq> Uncaught e"
  by (induction evs out r rule: linux_probe.induct)
     (auto simp: resolve_def split: promise.splits)

lemma discovery_elsewhere_never_fails:
  "detectCameras Linux (Spawned (ProbeError e # evs)) = Fulfilled []"
  "detectCameras Linux p \<noteq> Uncaught e"
  "detectCameras os (SpawnThrows e) = Fulfilled []"
  "detectCameras OtherOS p = Fulfilled []"
  "detectCameras Windows (Spawned (ProbeError e # evs)) = Uncaught e"
proof -
  show "detectCameras Linux (Spawned (ProbeError e # evs)) = Fulfilled []"
    by (simp add: detectCameras_def resolve_def linux_probe_settles)
  show "detectCameras Linux p \<noteq> Uncaught e"
    by (cases p) (simp_all add: detectCameras_def linux_probe_not_uncaught)
  show "detectCameras os (SpawnThrows e) = Fulfilled []"
    by (cases os) (simp_all add: detectCameras_def)
  show "detectCameras OtherOS p = Fulfilled []"
    by (simp add: detectCameras_def)
  show "detectCameras Windows (Spawned (ProbeError e # evs)) = Uncaught e"
    by (simp add: detectCameras_def)
qed

text \<open>
  C6 does not hold on Windows. The Linux branch listens for the \<^verbatim>\<open>error\<close> event of the
  probe and resolves with the empty list; the Windows branch registers no such
  listener. When ffmpeg is not installed the child emits \<^verbatim>\<open>error\<close>, which nobody
  handles: an uncaught exception instead of the empty list.
\<close>

theorem windows_probe_error_uncaught:
  "detectCameras Windows (Spawned [ProbeError ''spawn ffmpeg ENOENT'']) = Uncaught ''spawn ffmpeg ENOENT''
   \<and> detectCameras Linux (Spawned [ProbeError ''spawn v4l2-ctl ENOENT'', ProbeClose]) = Fulfilled []"
  by (simp add: detectCameras_def resolve_def)

lemma sample_lines:
  "split_on (CHR 0x0A) sample_v4l2_output =
    [''pispbe (platform:1000880000.pisp_be):'',
     [CHR 0x09] @ ''/dev/video20'',
     [CHR 0x09] @ ''/dev/media0'',
     [],
     ''USB Camera (usb-xhci-hcd.0-1):'',
     [CHR 0x09] @ ''/dev/video0'',
     [CHR 0x09] @ ''/dev/video1'',
     [CHR 0x09] @ ''/dev/media3'',
     [],
     ''HD Webcam (usb-xhci-hcd.1-2):'',
     [CHR 0x09] @ ''/dev/video2'',
     [CHR 0x09] @ ''/dev/video3'',
     []]"
  by (simp add: sample_v4l2_output_def)

lemmas trim_eval = js_trim_def strip_leading.simps leading_def white_space_def

lemma sample_parse:
  "linux_parse sample_v4l2_output =
     [\<lparr> v_name = ''USB Camera (usb-xhci-hcd.0-1)'', v_devices = [''/dev/video0''] \<rparr>,
      \<lparr> v_name = ''HD Webcam (usb-xhci-hcd.1-2)'', v_devices = [''/dev/video2''] \<rparr>]"
  unfolding linux_parse_def linux_scan_def sample_lines
  by (simp add: linux_line_def trim_eval endsWith_def)

lemma sample_detect:
  "detectCameras Linux (Spawned [ProbeStdout sample_v4l2_output, ProbeClose]) = Fulfilled sample_detected"
  by (simp add: detectCameras_def sample_parse resolve_def linux_camera_def stream_url_def show_nat.simps
        digit_char_def js_index_def sample_detected_def)

lemma sample_windows_lines:
  "split_on (CHR 0x0A) sample_dshow_output =
    [''[dshow @ 0000021f] DirectShow video devices'',
     ''[dshow @ 0000021f] '' @ [dquote] @ ''Integrated Camera'' @ [dquote] @ '' (video)'',
     ''[dshow @ 0000021f]   Alternative name '' @ [dquote] @ ''@device_pnp_usb#vid_04f2'' @ [dquote],
     ''[dshow @ 0000021f] '' @ [dquote] @ ''USB2.0 HD UVC WebCam'' @ [dquote] @ '' (video)'',
     ''[dshow @ 0000021f] '' @ [dquote] @ ''Microphone (Realtek Audio)'' @ [dquote] @ '' (audio)'',
     []]"
  by (simp add: sample_dshow_output_def dquote_def)

lemma sample_windows_devices:
  "windows_devices sample_dshow_output = [''Integrated Camera'', ''USB2.0 HD UVC WebCam'']"
  unfolding windows_devices_def sample_windows_lines
  by (simp add: List.map_filter_simps video_device_def match_video_at_def dquote_def)

lemma sample_windows_detect:
  "detectCameras Windows (Spawned [ProbeStderr sample_dshow_output, ProbeClose])
     = Fulfilled sample_detected_windows"
  by (simp add: detectCameras_def windows_parse_def sample_windows_lines resolve_def windows_line_def windows_camera_def
        match_video_at_def dquote_def stream_url_def show_nat.simps digit_char_def
        sample_detected_windows_def)


text \<open>Numbered descriptors.\<close>

lemma numbered_nth:
  "i < length xs \<Longrightarrow> numbered mk xs ! i = mk i (xs ! i)"
  by (simp add: numbered_def nth_enumerate_eq)

lemma length_numbered [simp]: "length (numbered mk xs) = length xs"
  by (simp add: numbered_def)

lemma numbered_ids:
  assumes "\<And>i x. cam_id (mk i x) = i"
  shows "map cam_id (numbered mk xs) = [0..<length xs]"
  by (rule nth_equalityI) (simp_all add: numbered_nth assms)

lemma numbered_ports:
  assumes "\<And>i x. streamPort (mk i x) = 20000 + i \<and> streamUrl (mk i x) = stream_url (20000 + i)"
    and "\<And>i x. cam_id (mk i x) = i"
    and "c \<in> set (numbered mk xs)"
  shows "streamPort c = 20000 + cam_id c
         \<and> streamUrl c = ''http://localhost:'' @ show_nat (20000 + cam_id c) @ ''/stream''"
proof -
  obtain i where i: "i < length xs" and c: "c = numbered mk xs ! i"
    using assms(3) by (auto simp: in_set_conv_nth)
  then have "c = mk i (xs ! i)" by (simp add: numbered_nth)
  then show ?thesis using assms(1,2) by (simp add: stream_url_def)
qed

lemma linux_cameras_enumerate:
  "linux_cameras i gs = map (\<lambda>(j, g). linux_camera j g) (enumerate i gs)"
  by (induction gs arbitrary: i) simp_all

lemma linux_cameras_numbered: "linux_cameras 0 gs = numbered linux_camera gs"
  by (simp add: numbered_def linux_cameras_enumerate)

lemma windows_line_device:
  "windows_line (acc, n) line =
     (case video_device line of
        None \<Rightarrow> (acc, n)
      | Some d \<Rightarrow> (acc @ [windows_camera n d], n + 1))"
  by (simp add: windows_line_def video_device_def Let_def split: option.splits)

lemma windows_lines_enumerate:
  "foldl windows_line (acc, n) lines =
     (acc @ map (\<lambda>(j, d). windows_camera j d) (enumerate n (List.map_filter video_device lines)),
      n + length (List.map_filter video_device lines))"
proof (induction lines arbitrary: acc n)
  case Nil
  show ?case by (simp add: List.map_filter_simps)
next
  case (Cons l lines)
  show ?case
  proof (cases "video_device l")
    case None
    then show ?thesis using Cons [of acc n]
      by (simp add: windows_line_device List.map_filter_simps)
  next
    case (Some d)
    then show ?thesis using Cons [of "acc @ [windows_camera n d]" "Suc n"]
      by (simp add: windows_line_device List.map_filter_simps)
  qed
qed

lemma windows_parse_numbered:
  "windows_parse out = numbered windows_camera (windows_devices out)"
  by (simp add: windows_parse_def windows_devices_def numbered_def windows_lines_enumerate)

text \<open>
  The loop over the Linux listing pairs each group name with the first video node
  that follows it, in the order of the lines.
\<close>

lemma linux_line_kind:
  "linux_line (cams, cur) l =
     (case v4l2_line_of l of
        InternalLine \<Rightarrow> (cams, cur)
      | OtherLine \<Rightarrow> (cams, cur)
      | GroupName n \<Rightarrow> (cams, Some \<lparr> v_name = n, v_devices = [] \<rparr>)
      | VideoNode d \<Rightarrow>
          (case cur of
             None \<Rightarrow> (cams, None)
           | Some cc \<Rightarrow>
               if length (v_devices cc) = 0
               then (cams @ [cc\<lparr> v_devices := v_devices cc @ [d] \<rparr>], None)
               else (cams, None)))"
  by (simp add: linux_line_def v4l2_line_of_def Let_def split: option.splits)

lemma linux_lines_first_nodes:
  assumes "\<And>g. cur = Some g \<Longrightarrow> v_devices g = []"
  shows "fst (foldl linux_line (cams, cur) ls)
         = cams @ map v4l2_group (first_nodes (map_option v_name cur) (map v4l2_line_of ls))"
  using assms
proof (induction ls arbitrary: cams cur)
  case Nil
  show ?case by simp
next
  case (Cons l ls)
  show ?case
  proof (cases "v4l2_line_of l")
    case InternalLine
    then show ?thesis using Cons.IH [of cur cams] Cons.prems
      by (simp add: linux_line_kind)
  next
    case OtherLine
    then show ?thesis using Cons.IH [of cur cams] Cons.prems
      by (simp add: linux_line_kind)
  next
    case (GroupName n)
    then show ?thesis
      using Cons.IH [of "Some \<lparr> v_name = n, v_devices = [] \<rparr>" cams]
      by (simp add: linux_line_kind)
  next
    case (VideoNode d)
    show ?thesis
    proof (cases cur)
      case None
      then show ?thesis using VideoNode Cons.IH [of None cams]
        by (simp add: linux_line_kind)
    next
      case (Some cc)
      then have e: "v_devices cc = []" using Cons.prems by simp
      have g: "cc\<lparr> v_devices := [d] \<rparr> = v4l2_group (v_name cc, d)"
        by (simp add: v4l2_group_def)
      show ?thesis
        using Some VideoNode e g Cons.IH [of None "cams @ [cc\<lparr> v_devices := [d] \<rparr>]"]
        by (simp add: linux_line_kind)
    qed
  qed
qed

lemma linux_parse_devices: "linux_parse out = map v4l2_group (linux_devices out)"
  using linux_lines_first_nodes [of None "[]" "split_on (CHR 0x0A) out"]
  by (simp add: linux_parse_def linux_scan_def linux_devices_def)

lemma sample_linux_devices:
  "linux_devices sample_v4l2_output =
     [(''USB Camera (usb-xhci-hcd.0-1)'', ''/dev/video0''),
      (''HD Webcam (usb-xhci-hcd.1-2)'', ''/dev/video2'')]"
  unfolding linux_devices_def sample_lines
  by (simp add: v4l2_line_of_def trim_eval endsWith_def)

text \<open>What the promise is fulfilled with.\<close>

lemma windows_probe_fulfilled:
  "windows_probe evs out (Fulfilled x) = Fulfilled y \<Longrightarrow> y = x"
  by (induction evs out "Fulfilled x :: camera list promise" rule: windows_probe.induct)
     (simp_all add: resolve_def)

lemma windows_probe_pending:
  "windows_probe evs out Pending = Fulfilled y
     \<Longrightarrow> y = windows_parse (out @ probe_text Windows evs)"
proof (induction evs arbitrary: out)
  case Nil
  then show ?case by simp
next
  case (Cons ev evs)
  show ?case
  proof (cases ev)
    case (ProbeStdout d)
    then show ?thesis using Cons by simp
  next
    case (ProbeStderr d)
    then show ?thesis using Cons.IH [of "out @ d"] Cons.prems by simp
  next
    case ProbeClose
    then show ?thesis using Cons.prems windows_probe_fulfilled
      by (simp add: resolve_def)
  next
    case (ProbeError e)
    then show ?thesis using Cons.prems by simp
  qed
qed

lemma linux_probe_pending:
  "linux_probe evs out Pending = Fulfilled y
     \<Longrightarrow> (error_first evs \<and> y = [])
         \<or> (\<not> error_first evs \<and> y = linux_cameras 0 (linux_parse (out @ probe_text Linux evs)))"
proof (induction evs arbitrary: out)
  case Nil
  then show ?case by simp
next
  case (Cons ev evs)
  show ?case
  proof (cases ev)
    case (ProbeStdout d)
    then show ?thesis using Cons.IH [of "out @ d"] Cons.prems by simp
  next
    case (ProbeStderr d)
    then show ?thesis using Cons.IH [of out] Cons.prems by simp
  next
    case ProbeClose
    then show ?thesis using Cons.prems
      by (simp add: resolve_def linux_probe_settles)
  next
    case (ProbeError e)
    then show ?thesis using Cons.prems
      by (simp add: resolve_def linux_probe_settles)
  qed
qed

text \<open>
  C7. Whatever list a discovery run returns, its identifiers are 0, 1, 2, ... in the
  order of the list, so they are unique and have no gap; every descriptor has the
  port 20000 plus its identifier and the URL \<^verbatim>\<open>http://localhost:<port>/stream\<close>. The
  list follows the enumeration of the probe: on Windows the descriptor \<open>i\<close> is the one
  of the \<open>i\<close>-th video device that the lines of the ffmpeg listing name, in the order
  of the lines (server.js 179-194); on Linux it is the one of the \<open>i\<close>-th group of the
  v4l2-ctl listing that has a video node, with the name of the group and its first
  video node (server.js 140-151). The list is empty on any other platform, when
  \<^verbatim>\<open>spawn\<close> throws, and on Linux when the probe emits \<^verbatim>\<open>error\<close> before it closes.
\<close>

theorem detected_cameras_numbered:
  assumes "detectCameras os p = Fulfilled cams"
  shows "map cam_id cams = [0..<length cams]
       \<and> distinct (map cam_id cams)
       \<and> (\<forall>c\<in>set cams. streamPort c = 20000 + cam_id c
                          \<and> streamUrl c = ''http://localhost:'' @ show_nat (20000 + cam_id c) @ ''/stream'')
       \<and> (\<forall>evs. os = Windows \<and> p = Spawned evs \<longrightarrow>
             cams = numbered windows_camera (windows_devices (probe_text Windows evs))
           \<and> map device cams = map Some (windows_devices (probe_text Windows evs)))
       \<and> (\<forall>evs. os = Linux \<and> p = Spawned evs \<and> \<not> error_first evs \<longrightarrow>
             cams = numbered linux_camera (map v4l2_group (linux_devices (probe_text Linux evs)))
           \<and> map cam_name cams = map (\<lambda>nd. Some (fst nd)) (linux_devices (probe_text Linux evs))
           \<and> map device cams = map (\<lambda>nd. Some (snd nd)) (linux_devices (probe_text Linux evs)))
       \<and> (os = OtherOS \<or> (\<exists>e. p = SpawnThrows e)
            \<or> (\<exists>evs. os = Linux \<and> p = Spawned evs \<and> error_first evs) \<longrightarrow> cams = [])"
proof -
  have lin_fields: "\<And>i g. cam_id (linux_camera i g) = i"
    "\<And>i g. streamPort (linux_camera i g) = 20000 + i \<and> streamUrl (linux_camera i g) = stream_url (20000 + i)"
    by (simp_all add: linux_camera_def)
  have win_fields: "\<And>i d. cam_id (windows_camera i d) = i"
    "\<And>i d. streamPort (windows_camera i d) = 20000 + i \<and> streamUrl (windows_camera i d) = stream_url (20000 + i)"
    by (simp_all add: windows_camera_def)
  consider (empty) "cams = []"
      "os = OtherOS \<or> (\<exists>e. p = SpawnThrows e) \<or> (\<exists>evs. os = Linux \<and> p = Spawned evs \<and> error_first evs)"
    | (linux) evs where "os = Linux" "p = Spawned evs" "\<not> error_first evs"
        "cams = numbered linux_camera (map v4l2_group (linux_devices (probe_text Linux evs)))"
    | (windows) evs where "os = Windows" "p = Spawned evs"
        "cams = numbered windows_camera (windows_devices (probe_text Windows evs))"
  proof (cases os)
    case Linux
    show ?thesis
    proof (cases p)
      case (SpawnThrows e)
      then show ?thesis using assms Linux empty by (simp add: detectCameras_def)
    next
      case (Spawned evs)
      then have "linux_probe evs [] Pending = Fulfilled cams"
        using assms Linux by (simp add: detectCameras_def)
      then have "(error_first evs \<and> cams = [])
         \<or> (\<not> error_first evs \<and> cams = linux_cameras 0 (linux_parse ([] @ probe_text Linux evs)))"
        by (rule linux_probe_pending)
      then show ?thesis using Linux Spawned empty linux
        by (auto simp: linux_cameras_numbered linux_parse_devices)
    qed
  next
    case Windows
    show ?thesis
    proof (cases p)
      case (SpawnThrows e)
      then show ?thesis using assms Windows empty by (simp add: detectCameras_def)
    next
      case (Spawned evs)
      then have "windows_probe evs [] Pending = Fulfilled cams"
        using assms Windows by (simp add: detectCameras_def)
      then have "cams = windows_parse ([] @ probe_text Windows evs)"
        by (rule windows_probe_pending)
      then show ?thesis using Windows Spawned windows
        by (simp add: windows_parse_numbered)
    qed
  next
    case OtherOS
    then show ?thesis using assms empty by (simp add: detectCameras_def)
  qed
  then show ?thesis
  proof cases
    case empty
    have no_lin: "\<And>evs. os = Linux \<and> p = Spawned evs \<and> \<not> error_first evs \<Longrightarrow> False"
      using empty(2) by auto
    have win: "\<And>evs. os = Windows \<and> p = Spawned evs \<Longrightarrow>
        windows_devices (probe_text Windows evs) = []"
    proof -
      fix evs assume w: "os = Windows \<and> p = Spawned evs"
      then have "windows_probe evs [] Pending = Fulfilled cams"
        using assms by (simp add: detectCameras_def)
      then have "cams = windows_parse ([] @ probe_text Windows evs)"
        by (rule windows_probe_pending)
      then have "length cams = length (windows_devices (probe_text Windows evs))"
        by (simp add: windows_parse_numbered)
      then show "windows_devices (probe_text Windows evs) = []"
        using empty(1) by simp
    qed
    show ?thesis using empty(1) no_lin win by (auto simp: numbered_def)
  next
    case (linux evs)
    let ?ds = "linux_devices (probe_text Linux evs)"
    have ids: "map cam_id cams = [0..<length cams]"
      using numbered_ids [of linux_camera "map v4l2_group ?ds"] lin_fields(1) linux(4) by simp
    have ports: "\<forall>c\<in>set cams. streamPort c = 20000 + cam_id c
        \<and> streamUrl c = ''http://localhost:'' @ show_nat (20000 + cam_id c) @ ''/stream''"
      using numbered_ports [of linux_camera _ "map v4l2_group ?ds"] lin_fields linux(4) by blast
    have names: "map cam_name cams = map (\<lambda>nd. Some (fst nd)) ?ds"
      unfolding linux(4)
      by (rule nth_equalityI) (simp_all add: numbered_nth linux_camera_def v4l2_group_def)
    have devs: "map device cams = map (\<lambda>nd. Some (snd nd)) ?ds"
      unfolding linux(4)
      by (rule nth_equalityI)
         (simp_all add: numbered_nth linux_camera_def v4l2_group_def js_index_def)
    have "distinct (map cam_id cams)" using ids by simp
    then show ?thesis using ids ports names devs linux by auto
  next
    case (windows evs)
    let ?ds = "windows_devices (probe_text Windows evs)"
    have ids: "map cam_id cams = [0..<length cams]"
      using numbered_ids [of windows_camera ?ds] win_fields(1) windows(3) by simp
    have ports: "\<forall>c\<in>set cams. streamPort c = 20000 + cam_id c
        \<and> streamUrl c = ''http://localhost:'' @ show_nat (20000 + cam_id c) @ ''/stream''"
      using numbered_ports [of windows_camera _ ?ds] win_fields windows(3) by blast
    have devs: "map device cams = map Some ?ds"
      unfolding windows(3)
      by (rule nth_equalityI) (simp_all add: numbered_nth windows_camera_def)
    have "distinct (map cam_id cams)" using ids by simp
    then show ?thesis using ids ports devs windows by auto
  qed
qed

text \<open>
  A run on Linux over a listing with an internal device and two cameras of two video
  nodes each, and a run on Windows over a listing with two video devices and an
  audio device.
\<close>

theorem detected_cameras_numbered_witness:
  "detectCameras Linux (Spawned [ProbeStdout sample_v4l2_output, ProbeClose])
       = Fulfilled sample_detected
   \<and> linux_devices sample_v4l2_output
       = [(''USB Camera (usb-xhci-hcd.0-1)'', ''/dev/video0''),
          (''HD Webcam (usb-xhci-hcd.1-2)'', ''/dev/video2'')]
   \<and> map cam_id sample_detected = [0, 1]
   \<and> map device sample_detected = [Some ''/dev/video0'', Some ''/dev/video2'']
   \<and> map streamPort sample_detected = [20000, 20001]
   \<and> map streamUrl sample_detected
       = [''http://localhost:20000/stream'', ''http://localhost:20001/stream'']
   \<and> detectCameras Windows (Spawned [ProbeStderr sample_dshow_output, ProbeClose])
       = Fulfilled sample_detected_windows
   \<and> windows_devices sample_dshow_output = [''Integrated Camera'', ''USB2.0 HD UVC WebCam'']
   \<and> map cam_id sample_detected_windows = [0, 1]
   \<and> map device sample_detected_windows
       = [Some ''Integrated Camera'', Some ''USB2.0 HD UVC WebCam'']
   \<and> map streamPort sample_detected_windows = [20000, 20001]
   \<and> map streamUrl sample_detected_windows
       = [''http://localhost:20000/stream'', ''http://localhost:20001/stream'']"
proof -
  note l = detected_cameras_numbered [OF sample_detect]
  note w = detected_cameras_numbered [OF sample_windows_detect]
  have tl: "probe_text Linux [ProbeStdout sample_v4l2_output, ProbeClose] = sample_v4l2_output"
    and el: "\<not> error_first [ProbeStdout sample_v4l2_output, ProbeClose]"
    and tw: "probe_text Windows [ProbeStderr sample_dshow_output, ProbeClose] = sample_dshow_output"
    by simp_all
  have l_ids: "map cam_id sample_detected = [0..<length sample_detected]"
    using l by blast
  have l_dev: "map device sample_detected
      = map (\<lambda>nd. Some (snd nd)) (linux_devices sample_v4l2_output)"
    using l tl el by auto
  have w_ids: "map cam_id sample_detected_windows = [0..<length sample_detected_windows]"
    using w by blast
  have w_dev: "map device sample_detected_windows
      = map Some (windows_devices sample_dshow_output)"
    using w tw by auto
  have len: "length sample_detected = 2" "length sample_detected_windows = 2"
    by (simp_all add: sample_detected_def sample_detected_windows_def)
  have upt: "[0..<2] = [0, Suc 0]" by (simp add: upt_rec)
  have l_ids': "map cam_id sample_detected = [0, 1]"
    using l_ids len upt by simp
  have w_ids': "map cam_id sample_detected_windows = [0, 1]"
    using w_ids len upt by simp
  have l_dev': "map device sample_detected = [Some ''/dev/video0'', Some ''/dev/video2'']"
    using l_dev by (simp add: sample_linux_devices)
  have w_dev': "map device sample_detected_windows
      = [Some ''Integrated Camera'', Some ''USB2.0 HD UVC WebCam'']"
    using w_dev by (simp add: sample_windows_devices)
  have l_rest: "map streamPort sample_detected = [20000, 20001]"
    "map streamUrl sample_detected
       = [''http://localhost:20000/stream'', ''http://localhost:20001/stream'']"
    by (simp_all add: sample_detected_def)
  have w_rest: "map streamPort sample_detected_windows = [20000, 20001]"
    "map streamUrl sample_detected_windows
       = [''http://localhost:20000/stream'', ''http://localhost:20001/stream'']"
    by (simp_all add: sample_detected_windows_def)
  show ?thesis
    using sample_detect sample_linux_devices l_ids' l_dev' l_rest
      sample_windows_detect sample_windows_devices w_ids' w_dev' w_rest
    by blast
qed

subsection \<open>The model list\<close>

lemma run_ticks_models: "currentModels (run_ticks envs s) = currentModels s"
  using run_ticks_frame [of s envs] by (simp add: cycle_frame_def)

text \<open>
  C8, as amended. \<^verbatim>\<open>getModelList\<close> asks \<^verbatim>\<open>https://vertiapp.xyz/list-models\<close> (the base
  URL followed by the list path); it returns the data of the response (the empty
  list when the data is falsy), and when the request fails the built-in list
  bacterial-disease, early-blight. Nothing calls it: after \<^verbatim>\<open>initialize\<close> and any
  number of polling cycles the models are the two the module starts with.
\<close>

theorem model_list_is_built_in:
  "getModelList (AxiosRejected e) = JArr [JStr ''bacterial-disease'', JStr ''early-blight'']
   \<and> getModelList (AxiosResponse data) = (if truthy data then the data else JArr [])
   \<and> model_list_url = ''https://vertiapp.xyz/list-models''
   \<and> currentModels (run_ticks envs (fst (initialize detected initial_state)))
       = [''lettuce-diseases'', ''malabar-spinach-training'']"
  by (simp add: getModelList_def model_list_url_def API_MAIN_def API_MODEL_LIST_ENDPOINT_def
        run_ticks_models initialize_def initial_state_def Let_def)

text \<open>
  C8, as stated, fails: whether the catalog answers with a list or the request
  fails, the polling loop selects neither the catalog's models nor the fallback of
  \<^verbatim>\<open>getModelList\<close>, but the two models of the module's initial list.
\<close>

theorem model_catalog_not_consulted:
  "getModelList (AxiosResponse (Some (JArr [JStr ''tomato-leaf'']))) = JArr [JStr ''tomato-leaf'']
   \<and> getModelList (AxiosRejected ''ECONNREFUSED'') = JArr [JStr ''bacterial-disease'', JStr ''early-blight'']
   \<and> selected_models [sample_env_ok, sample_env_ok] sample_state
       = [Some ''lettuce-diseases'', Some ''malabar-spinach-training'']"
proof -
  have h1: "cameras sample_state \<noteq> []" by simp
  have h2: "currentModels sample_state \<noteq> []" by simp
  have h3: "currentModelIndex sample_state < length (currentModels sample_state)" by simp
  have "cursor_trace [sample_env_ok, sample_env_ok] sample_state
      = map (\<lambda>k. (currentModelIndex sample_state + k) mod length (currentModels sample_state))
          [0..<length [sample_env_ok, sample_env_ok]]"
    by (rule cursor_trace_eq [OF h1 h2 h3])
  also have "\<dots> = [0, 1]" by (simp add: upt_conv_Cons)
  finally have ct: "cursor_trace [sample_env_ok, sample_env_ok] sample_state = [0, 1]" .
  have "selected_models [sample_env_ok, sample_env_ok] sample_state
      = map (js_index (currentModels sample_state)) (cursor_trace [sample_env_ok, sample_env_ok] sample_state)"
    by (rule selected_models_eq)
  also have "\<dots> = [Some ''lettuce-diseases'', Some ''malabar-spinach-training'']"
    unfolding ct by (simp add: js_index_def)
  finally have sel: "selected_models [sample_env_ok, sample_env_ok] sample_state
      = [Some ''lettuce-diseases'', Some ''malabar-spinach-training'']" .
  have g: "getModelList (AxiosResponse (Some (JArr [JStr ''tomato-leaf'']))) = JArr [JStr ''tomato-leaf'']
   \<and> getModelList (AxiosRejected ''ECONNREFUSED'') = JArr [JStr ''bacterial-disease'', JStr ''early-blight'']"
    by (simp add: getModelList_def)
  show ?thesis using sel g by blast
qed

end
